theory Spec2Isabelle
  imports Main "HOL-Library.Char_ord" "HOL-Library.List_Lexorder" "HOL-Library.AList"
    "HOL-Library.Sublist"
begin

section \<open>nukecli: command-line strings compiled to Nuke TCL\<close>

text \<open>
  A shallow embedding of \<^verbatim>\<open>nukecli.py\<close>. Python 2 byte strings are \<open>string\<close>;
  exceptions are values of \<open>error\<close>; the loop of \<^verbatim>\<open>parseCLI\<close> is a recursion over
  the list of command segments, threading a record of the local variables.
\<close>

subsection \<open>Characters and strings\<close>

text \<open>The six characters Python 2 calls whitespace (\<^verbatim>\<open>\s\<close> on a byte pattern, and
  \<^verbatim>\<open>str.strip()\<close>): space, tab, newline, vertical tab, form feed, carriage return.\<close>

definition is_space :: "char \<Rightarrow> bool" where
  "is_space c = (c \<in> set [CHR '' '', CHR 0x09, CHR 0x0A, CHR 0x0B, CHR 0x0C, CHR 0x0D])"

definition is_digit :: "char \<Rightarrow> bool" where
  "is_digit c = (c \<in> set ''0123456789'')"

text \<open>\<^verbatim>\<open>str.strip()\<close> without arguments.\<close>

definition strip :: "string \<Rightarrow> string" where
  "strip s = rev (dropWhile is_space (rev (dropWhile is_space s)))"

text \<open>\<^verbatim>\<open>sep.join(xs)\<close>.\<close>

fun join :: "string \<Rightarrow> string list \<Rightarrow> string" where
  "join sep [] = []"
| "join sep [x] = x"
| "join sep (x # y # ys) = x @ sep @ join sep (y # ys)"

text \<open>\<^verbatim>\<open>s.split(sep)\<close> for a non-empty separator: the occurrences of \<open>sep\<close> are found
  from the left and do not overlap; \<open>n\<close> occurrences give \<open>n + 1\<close> pieces, empty ones
  included.\<close>

fun split_str :: "string \<Rightarrow> string \<Rightarrow> string list" where
  "split_str sep [] = [[]]"
| "split_str sep (c # cs) =
     (if sep \<noteq> [] \<and> prefix sep (c # cs)
      then [] # split_str sep (drop (length sep - 1) cs)
      else (case split_str sep cs of
              [] \<Rightarrow> [[c]]
            | seg # segs \<Rightarrow> (c # seg) # segs))"

subsection \<open>Tokenizer\<close>

text \<open>
  \<^verbatim>\<open>argRE = re.compile('(\{[{}.0-9\s]+\}|[^\s]+)')\<close>.
  The first alternative needs an opening brace, then a run of one or more characters out
  of braces, dot, digits and whitespace, then a closing brace. The run is greedy and the
  closing brace is itself in the class, so the engine takes the whole maximal run of class
  characters and backs up to the last closing brace in it that leaves the run non-empty.
  The second alternative is a maximal run of non-whitespace characters.
\<close>

definition in_brace_class :: "char \<Rightarrow> bool" where
  "in_brace_class c = (c = CHR ''{'' \<or> c = CHR ''}'' \<or> c = CHR ''.'' \<or> is_digit c \<or> is_space c)"

text \<open>The text up to and including the last closing brace of \<open>run\<close> (empty when it has
  none).\<close>

definition upto_last_close :: "string \<Rightarrow> string" where
  "upto_last_close run = rev (dropWhile (\<lambda>c. c \<noteq> CHR ''}'') (rev run))"

definition match_brace :: "string \<Rightarrow> string option" where
  "match_brace s =
     (case s of
        [] \<Rightarrow> None
      | c # rest \<Rightarrow>
          if c = CHR ''{''
          then (let r = upto_last_close (takeWhile in_brace_class rest)
                in if 2 \<le> length r then Some (c # r) else None)
          else None)"

definition match_word :: "string \<Rightarrow> string option" where
  "match_word s = (let w = takeWhile (\<lambda>c. \<not> is_space c) s in if w = [] then None else Some w)"

text \<open>One attempt of \<^verbatim>\<open>argRE\<close> at the start of \<open>s\<close>: the alternatives in order.\<close>

definition match_arg :: "string \<Rightarrow> string option" where
  "match_arg s = (case match_brace s of Some t \<Rightarrow> Some t | None \<Rightarrow> match_word s)"

lemma match_arg_nonempty: "match_arg s = Some t \<Longrightarrow> t \<noteq> []"
  by (auto simp: match_arg_def match_brace_def match_word_def Let_def
      split: option.splits list.splits if_splits)

text \<open>\<^verbatim>\<open>argRE.findall(rawLine)\<close>: scan from the left; after a match continue behind it,
  otherwise move on by one character.\<close>

function findall_arg :: "string \<Rightarrow> string list" where
  "findall_arg [] = []"
| "findall_arg (c # cs) =
     (case match_arg (c # cs) of
        Some t \<Rightarrow> t # findall_arg (drop (length t) (c # cs))
      | None \<Rightarrow> findall_arg cs)"
  by pat_completeness auto
termination
proof (relation "measure length")
  show "wf (measure length)" by simp
next
  fix c cs t
  assume "match_arg (c # cs) = Some t"
  then have "t \<noteq> []" by (rule match_arg_nonempty)
  then have "0 < length t" by simp
  then show "(drop (length t) (c # cs), c # cs) \<in> measure length" by simp
next
  fix c cs
  show "(cs, c # cs) \<in> measure length" by simp
qed

subsection \<open>Errors\<close>

text \<open>The exceptions the module can raise. \<open>ValueError\<close> carries its message,
  \<open>KeyError\<close> the missing key. \<open>IndexError\<close> is \<^verbatim>\<open>pop(0)\<close> on an empty list.\<close>

datatype error =
    ValueError string
  | KeyError string
  | IndexError
  | PatternNotCovered string

text \<open>The first three are exceptions of the program. \<open>PatternNotCovered\<close> is none: it
  marks a class name candidate whose pattern this development does not interpret (see the
  class resolver below).\<close>

fun raised :: "error \<Rightarrow> bool" where
  "raised (PatternNotCovered s) = False"
| "raised err = True"

text \<open>\<^verbatim>\<open>parseLine\<close>: the first token is the command, the others its arguments.\<close>

definition parseLine :: "string \<Rightarrow> error + (string \<times> string list)" where
  "parseLine rawLine =
     (case findall_arg rawLine of
        [] \<Rightarrow> Inl IndexError
      | lineCmd # parsedLine \<Rightarrow> Inr (lineCmd, parsedLine))"

text \<open>The segments of \<^verbatim>\<open>parseCLI\<close>:
  \<^verbatim>\<open>[i.strip() for i in rawInput.split(' -') if i]\<close>, and before it
  \<^verbatim>\<open>rawInput = ' %s' % rawInput\<close>.\<close>

definition segments :: "string \<Rightarrow> string list" where
  "segments s = map strip (filter (\<lambda>i. i \<noteq> []) (split_str '' -'' s))"

definition cli_lines :: "string \<Rightarrow> string list" where
  "cli_lines rawInput = segments ('' '' @ rawInput)"

subsection \<open>Class resolver\<close>

text \<open>
  \<^verbatim>\<open>getNukeNode\<close> builds three patterns by pasting the candidate, unescaped, into
  \<^verbatim>\<open>'^%s\d?$'\<close> and \<^verbatim>\<open>'^%s'\<close>. So the candidate is read as pattern text. This
  development interprets ordinary characters (which stand for themselves) and the dot
  (any character but a newline). A candidate with one of the other operator characters
  \<^verbatim>\<open>\ ^ $ * + ? { } [ ] | ( )\<close> is outside what is modelled, and the model marks it
  with \<open>PatternNotCovered\<close>; that value says nothing about what the program does there.
\<close>

definition regex_special :: "char \<Rightarrow> bool" where
  "regex_special c = (c \<in> set (CHR 0x5C # ''^$*+?{}[]|()''))"

datatype atom = Lit char | AnyChar

fun pattern_atoms :: "string \<Rightarrow> atom list option" where
  "pattern_atoms [] = Some []"
| "pattern_atoms (c # cs) =
     (if regex_special c then None
      else (case pattern_atoms cs of
              None \<Rightarrow> None
            | Some as \<Rightarrow> Some ((if c = CHR ''.'' then AnyChar else Lit c) # as)))"

text \<open>\<^verbatim>\<open>re.IGNORECASE\<close> on a byte pattern folds the ASCII letters only.\<close>

definition lower :: "char \<Rightarrow> char" where
  "lower c =
     (case map_of (zip ''ABCDEFGHIJKLMNOPQRSTUVWXYZ'' ''abcdefghijklmnopqrstuvwxyz'') c of
        Some d \<Rightarrow> d
      | None \<Rightarrow> c)"

fun atom_match :: "bool \<Rightarrow> atom \<Rightarrow> char \<Rightarrow> bool" where
  "atom_match ic (Lit c) x = (if ic then lower c = lower x else c = x)"
| "atom_match ic AnyChar x = (x \<noteq> CHR 0x0A)"

text \<open>The atoms against the start of \<open>item\<close>; the result is what is left of it.\<close>

fun match_atoms :: "bool \<Rightarrow> atom list \<Rightarrow> string \<Rightarrow> string option" where
  "match_atoms ic [] item = Some item"
| "match_atoms ic (a # as) [] = None"
| "match_atoms ic (a # as) (x # xs) = (if atom_match ic a x then match_atoms ic as xs else None)"

text \<open>\<^verbatim>\<open>$\<close> without \<^verbatim>\<open>re.MULTILINE\<close>: the end of the string, or just before a newline
  that ends it.\<close>

definition at_end :: "string \<Rightarrow> bool" where
  "at_end rest = (rest = [] \<or> rest = [CHR 0x0A])"

text \<open>\<^verbatim>\<open>\d?$\<close> on what the candidate left over.\<close>

definition ver_tail :: "string \<Rightarrow> bool" where
  "ver_tail rest = (at_end rest \<or> (case rest of [] \<Rightarrow> False | d # r \<Rightarrow> is_digit d \<and> at_end r))"

text \<open>\<^verbatim>\<open>re.compile('^%s\d?$', flags).match(item)\<close>.\<close>

definition ver_match :: "bool \<Rightarrow> atom list \<Rightarrow> string \<Rightarrow> bool" where
  "ver_match ic as item = (case match_atoms ic as item of None \<Rightarrow> False | Some rest \<Rightarrow> ver_tail rest)"

text \<open>\<^verbatim>\<open>re.compile('^%s', flags).search(item)\<close>: the anchor leaves position 0 only.\<close>

definition prefix_match :: "bool \<Rightarrow> atom list \<Rightarrow> string \<Rightarrow> bool" where
  "prefix_match ic as item = (case match_atoms ic as item of None \<Rightarrow> False | Some rest \<Rightarrow> True)"

definition ambiguous_msg :: "string \<Rightarrow> string list \<Rightarrow> string" where
  "ambiguous_msg inString matches =
     ''Input argument '' @ [CHR 0x27] @ inString @ [CHR 0x27]
       @ '' partially matched the following node classes:'' @ [CHR 0x0A, CHR 0x09]
       @ join '', '' matches"

definition nomatch_msg :: "string \<Rightarrow> string" where
  "nomatch_msg inString =
     ''Input argument '' @ [CHR 0x27] @ inString @ [CHR 0x27]
       @ '' could not be matched to a node class''"

definition getNukeNode :: "string list \<Rightarrow> string \<Rightarrow> error + string" where
  "getNukeNode allPlugins inString =
     (case pattern_atoms inString of
        None \<Rightarrow> Inl (PatternNotCovered inString)
      | Some as \<Rightarrow>
          (let exact = filter (ver_match False as) allPlugins in
           if exact \<noteq> [] then Inr (last (sort exact))
           else
             (let nocase = filter (ver_match True as) allPlugins in
              if nocase \<noteq> [] then Inr (last (sort nocase))
              else
                (let partial = filter (prefix_match True as) allPlugins in
                 if partial \<noteq> []
                 then (if 1 < length partial
                       then Inl (ValueError (ambiguous_msg inString partial))
                       else Inr (hd partial))
                 else Inl (ValueError (nomatch_msg inString))))))"

subsection \<open>Identifiers\<close>

text \<open>\<^verbatim>\<open>str(n)\<close> for an integer.\<close>

fun str_nat :: "nat \<Rightarrow> string" where
  "str_nat n = (if n < 10 then [''0123456789'' ! n] else str_nat (n div 10) @ [''0123456789'' ! (n mod 10)])"

declare str_nat.simps [simp del]

definition str_int :: "int \<Rightarrow> string" where
  "str_int i = (if i < 0 then CHR ''-'' # str_nat (nat (- i)) else str_nat (nat i))"

text \<open>
  What the compiler takes from outside the module: the plugin list, \<^verbatim>\<open>zlib.crc32\<close>,
  the text of the \<open>k\<close>-th \<^verbatim>\<open>str(random.random())\<close> of the run, and the two file-system
  tests of \<^verbatim>\<open>os.path\<close>.
\<close>

record env =
  allPlugins :: "string list"
  crc32 :: "string \<Rightarrow> int"
  random_str :: "nat \<Rightarrow> string"
  path_isdir :: "string \<Rightarrow> bool"
  path_exists :: "string \<Rightarrow> bool"

text \<open>\<^verbatim>\<open>'N%s' % str(crc32(varName + str(random.random()))).replace('-', '_')\<close>; \<open>k\<close>
  counts the calls made before this one.\<close>

definition generateNodeID :: "env \<Rightarrow> nat \<Rightarrow> string \<Rightarrow> string" where
  "generateNodeID e k varName =
     CHR ''N'' # map (\<lambda>c. if c = CHR ''-'' then CHR ''_'' else c)
                     (str_int (crc32 e (varName @ random_str e k)))"

subsection \<open>The compiler\<close>

text \<open>The local variables of \<^verbatim>\<open>parseCLI\<close>. \<open>varMap\<close> is the dictionary, kept as an
  association list with one pair per key; \<open>rand_calls\<close> counts the calls of
  \<^verbatim>\<open>generateNodeID\<close> so far; \<open>printed\<close> collects what \<^verbatim>\<open>print\<close> wrote.\<close>

record state =
  cmdStack :: "string list"
  execNodes :: "(string \<times> string option) list"
  varMap :: "(string \<times> string) list"
  rand_calls :: nat
  printed :: "string list"

definition init_state :: state where
  "init_state = \<lparr>cmdStack = [], execNodes = [], varMap = [(''0'', ''0'')],
                  rand_calls = 0, printed = []\<rparr>"

definition emit :: "string \<Rightarrow> state \<Rightarrow> state" where
  "emit stmt st = st\<lparr>cmdStack := cmdStack st @ [stmt]\<rparr>"

definition say :: "string \<Rightarrow> state \<Rightarrow> state" where
  "say msg st = st\<lparr>printed := printed st @ [msg]\<rparr>"

definition capture_stmt :: "string \<Rightarrow> string" where
  "capture_stmt varID = ''set '' @ varID @ '' [stack 0]''"

definition save_stmt :: "string \<Rightarrow> string" where
  "save_stmt saveFile = ''script_save {'' @ saveFile @ ''}''"

definition node_stmt :: "string \<Rightarrow> string list \<Rightarrow> string" where
  "node_stmt node args = node @ '' {'' @ (if args \<noteq> [] then join '' '' args else []) @ ''}''"

definition warn_isdir :: "string \<Rightarrow> string" where
  "warn_isdir saveFile =
     ''WARNING: Script save path '' @ [CHR 0x27] @ saveFile @ [CHR 0x27]
       @ '' is a directory. Ignoring.''"

definition warn_exists :: "string \<Rightarrow> string" where
  "warn_exists saveFile =
     ''WARNING: Script save path already exists: '' @ [CHR 0x27] @ saveFile @ [CHR 0x27]"

definition warn_noforce :: string where
  "warn_noforce = ''WARNING: No force command found. Skipping script save.''"

definition warn_syntax :: string where
  "warn_syntax =
     ''WARNING: Invalid '' @ [CHR 0x27] @ ''save'' @ [CHR 0x27] @ '' syntax. Use ''
       @ [CHR 0x27] @ ''-save <path> force'' @ [CHR 0x27]
       @ '' to force-overwrite a save target. Skipping script save.''"

text \<open>The \<^verbatim>\<open>save\<close> branch, lines 235 to 249.\<close>

definition do_save :: "env \<Rightarrow> state \<Rightarrow> string list \<Rightarrow> error + state" where
  "do_save e st args =
     (case args of
        [] \<Rightarrow> Inl IndexError
      | saveFile # others \<Rightarrow>
          if path_isdir e saveFile then Inr (say (warn_isdir saveFile) st)
          else if path_exists e saveFile then
            (if others = [] then Inr (say warn_noforce (say (warn_exists saveFile) st))
             else if hd others \<noteq> ''force''
             then Inr (say warn_syntax (say (warn_exists saveFile) st))
             else Inr (emit (save_stmt saveFile)
                         (say ''Forcing script save.'' (say (warn_exists saveFile) st))))
          else Inr (emit (save_stmt saveFile) st))"

text \<open>One turn of the loop body, lines 218 to 253, on a command and its arguments.\<close>

definition process_cmd :: "env \<Rightarrow> state \<Rightarrow> string \<Rightarrow> string list \<Rightarrow> error + state" where
  "process_cmd e st cmd args =
     (if cmd = ''set'' \<and> length args = 1 then
        (let varName = hd args;
             varID = generateNodeID e (rand_calls st) varName
         in Inr (emit (capture_stmt varID)
                  (st\<lparr>varMap := AList.update varName varID (varMap st),
                      rand_calls := Suc (rand_calls st)\<rparr>)))
      else if cmd = ''push'' \<and> length args = 1 then
        (let varName = hd args
         in case map_of (varMap st) varName of
              None \<Rightarrow> Inl (KeyError varName)
            | Some varID \<Rightarrow>
                if varName \<noteq> ''0'' then Inr (emit (''push $'' @ varID) st)
                else Inr (emit ''push 0'' st))
      else if cmd = ''execute'' then
        (let varID = generateNodeID e (rand_calls st) cmd
         in Inr (emit (capture_stmt varID)
                  (st\<lparr>execNodes := execNodes st @ [(varID, if args \<noteq> [] then Some (hd args) else None)],
                      rand_calls := Suc (rand_calls st)\<rparr>)))
      else if cmd = ''save'' then do_save e st args
      else
        (case getNukeNode (allPlugins e) cmd of
           Inl err \<Rightarrow> Inl err
         | Inr node \<Rightarrow> Inr (emit (node_stmt node args) st)))"

definition process_line :: "env \<Rightarrow> state \<Rightarrow> string \<Rightarrow> error + state" where
  "process_line e st line =
     (case parseLine line of
        Inl err \<Rightarrow> Inl err
      | Inr (cmd, args) \<Rightarrow> process_cmd e st cmd args)"

text \<open>The \<^verbatim>\<open>for line in cli\<close> loop: an exception ends it.\<close>

fun run_lines :: "env \<Rightarrow> state \<Rightarrow> string list \<Rightarrow> error + state" where
  "run_lines e st [] = Inr st"
| "run_lines e st (line # rest) =
     (case process_line e st line of
        Inl err \<Rightarrow> Inl err
      | Inr st' \<Rightarrow> run_lines e st' rest)"

definition exec_stmt :: "string \<times> string option \<Rightarrow> string" where
  "exec_stmt nr =
     (case nr of
        (node, Some rng) \<Rightarrow> ''execute $'' @ node @ '' '' @ rng
      | (node, None) \<Rightarrow>
          ''execute $'' @ node @ '' [value $'' @ node @ ''.first]-[value $'' @ node @ ''.last]'')"

text \<open>The second loop, lines 256 to 260.\<close>

fun append_execs :: "string list \<Rightarrow> (string \<times> string option) list \<Rightarrow> string list" where
  "append_execs stack [] = stack"
| "append_execs stack (nr # rest) = append_execs (stack @ [exec_stmt nr]) rest"

definition tcl_string :: "string list \<Rightarrow> string" where
  "tcl_string stack = join '';'' stack @ '';''"

definition parseCLI :: "env \<Rightarrow> string \<Rightarrow> error + string" where
  "parseCLI e rawInput =
     (case run_lines e init_state (cli_lines rawInput) of
        Inl err \<Rightarrow> Inl err
      | Inr st \<Rightarrow> Inr (tcl_string (append_execs (cmdStack st) (execNodes st))))"

subsection \<open>Reading the commands\<close>

text \<open>What a segment asks for, read off \<^verbatim>\<open>parseLine\<close> and the tests of the loop: the name
  a \<^verbatim>\<open>set\<close> command (with its one argument) binds, whether a segment is an
  \<^verbatim>\<open>execute\<close> command, and the range it carries (\<^verbatim>\<open>args[0] if args else None\<close>).\<close>

definition set_name :: "string \<Rightarrow> string option" where
  "set_name line =
     (case parseLine line of
        Inl err \<Rightarrow> None
      | Inr (cmd, args) \<Rightarrow> if cmd = ''set'' \<and> length args = 1 then Some (hd args) else None)"

definition is_execute :: "string \<Rightarrow> bool" where
  "is_execute line = (case parseLine line of Inl err \<Rightarrow> False | Inr (cmd, args) \<Rightarrow> cmd = ''execute'')"

definition execute_range :: "string \<Rightarrow> string option" where
  "execute_range line =
     (case parseLine line of
        Inl err \<Rightarrow> None
      | Inr (cmd, args) \<Rightarrow> if args \<noteq> [] then Some (hd args) else None)"

text \<open>A candidate without regular-expression operators: no special character and no
  dot.\<close>

definition literal :: "string \<Rightarrow> bool" where
  "literal s = list_all (\<lambda>c. \<not> regex_special c \<and> c \<noteq> CHR ''.'') s"

subsection \<open>A sample host\<close>

text \<open>A small host to run the compiler on: six node classes, a stand-in checksum (any
  function of the text will do; this one is the length, scaled and shifted so that it
  also takes negative values), a stream of random-number texts that differ from call to
  call, and a file system with one directory and one file.\<close>

definition sample_env :: env where
  "sample_env =
     \<lparr>allPlugins = [''Blur'', ''Blur2'', ''Grade'', ''Merge'', ''Merge2'', ''Write''],
      crc32 = (\<lambda>s. int (length s) * 7 - 40),
      random_str = (\<lambda>k. ''0.'' @ replicate (Suc k) (CHR ''5'')),
      path_isdir = (\<lambda>p. p = ''/tmp''),
      path_exists = (\<lambda>p. p = ''/tmp'' \<or> p = ''/tmp/a.nk'')\<rparr>"

section \<open>Segmentation\<close>

lemma split_str_nonempty: "split_str sep s \<noteq> []"
  by (induction sep s rule: split_str.induct) (auto split: list.splits)

text \<open>A separator of two different characters cannot overlap itself, so every occurrence
  of it cuts.\<close>

lemma split_str_two:
  assumes "a \<noteq> b"
  shows "split_str [a, b] (x @ [a, b] @ y) = split_str [a, b] x @ split_str [a, b] y"
proof (induction x rule: length_induct)
  case (1 x)
  show ?case
  proof (cases x)
    case Nil
    then show ?thesis by simp
  next
    case (Cons c cs)
    show ?thesis
    proof (cases "prefix [a, b] (c # cs)")
      case True
      then obtain r where r: "c = a" "cs = b # r"
        by (cases cs) auto
      have "length r < length x" using Cons r by simp
      with 1 have "split_str [a, b] (r @ [a, b] @ y) = split_str [a, b] r @ split_str [a, b] y"
        by blast
      then show ?thesis using Cons r by simp
    next
      case False
      then have nf: "\<not> prefix [a, b] (c # cs @ [a, b] @ y)"
        using assms by (cases cs) auto
      have "length cs < length x" using Cons by simp
      with 1 have ih: "split_str [a, b] (cs @ [a, b] @ y) = split_str [a, b] cs @ split_str [a, b] y"
        by blast
      obtain seg segs where sg: "split_str [a, b] cs = seg # segs"
        using split_str_nonempty [of "[a, b]" cs] by (cases "split_str [a, b] cs") auto
      have "split_str [a, b] (c # cs @ [a, b] @ y)
              = (case split_str [a, b] (cs @ [a, b] @ y) of
                   [] \<Rightarrow> [[c]] | seg # segs \<Rightarrow> (c # seg) # segs)"
        using nf by (simp only: split_str.simps if_False simp_thms)
      also have "\<dots> = (c # seg) # segs @ split_str [a, b] y"
        unfolding ih sg by simp
      also have "\<dots> = split_str [a, b] (c # cs) @ split_str [a, b] y"
        using False by (simp only: split_str.simps if_False simp_thms sg list.case append_Cons)
      finally show ?thesis using Cons by simp
    qed
  qed
qed

lemma split_str_flag:
  "split_str '' -'' (x @ '' -'' @ y) = split_str '' -'' x @ split_str '' -'' y"
  by (rule split_str_two) simp

lemma segments_flag: "segments (x @ '' -'' @ y) = segments x @ segments y"
  unfolding segments_def split_str_flag by simp

lemma cli_lines_flag: "cli_lines (x @ '' -'' @ y) = cli_lines x @ segments y"
  using segments_flag [of "'' '' @ x" y] by (simp add: cli_lines_def)

text \<open>
  Claim C10. The raw input gets a space in front and is cut at every space-hyphen, before
  any token is read. So wherever the input has a space followed by a hyphen, the text
  behind the hyphen makes up segments of its own: the commands of \<open>x -y\<close> are the commands
  of \<open>x\<close> followed by the commands read from \<open>y\<close>, and nothing of \<open>y\<close> is an argument of a
  command of \<open>x\<close>. Braces play no part in it.
\<close>

theorem flag_split_before_tokens:
  "cli_lines rawInput = map strip (filter (\<lambda>i. i \<noteq> []) (split_str '' -'' ('' '' @ rawInput)))
   \<and> cli_lines (x @ '' -'' @ y) = cli_lines x @ segments y
   \<and> map parseLine (cli_lines (x @ '' -'' @ y))
       = map parseLine (cli_lines x) @ map parseLine (segments y)"
proof -
  have a: "cli_lines (x @ '' -'' @ y) = cli_lines x @ segments y"
    by (rule cli_lines_flag)
  have b: "cli_lines rawInput
             = map strip (filter (\<lambda>i. i \<noteq> []) (split_str '' -'' ('' '' @ rawInput)))"
    unfolding cli_lines_def segments_def ..
  show ?thesis unfolding a using b by simp
qed

text \<open>A negative number inside a brace group: the group is cut in two, and its second half
  is read as a command of its own.\<close>

theorem flag_split_before_tokens_witness:
  "map parseLine (cli_lines ''-grade multiply {1 -2}'')
     = [Inr (''grade'', [''multiply'', ''{1'']), Inr (''2}'', [])]"
proof -
  have "map parseLine (cli_lines (''-grade multiply {1'' @ '' -'' @ ''2}''))
          = map parseLine (cli_lines ''-grade multiply {1'') @ map parseLine (segments ''2}'')"
    using flag_split_before_tokens [of "[]" "''-grade multiply {1''" "''2}''"] by blast
  moreover have "map parseLine (cli_lines ''-grade multiply {1'')
                   = [Inr (''grade'', [''multiply'', ''{1''])]"
    by code_simp
  moreover have "map parseLine (segments ''2}'') = [Inr (''2}'', [])]"
    by code_simp
  ultimately show ?thesis by simp
qed

section \<open>Tokens\<close>

lemma takeWhile_stop:
  assumes "list_all P xs" and "rest = [] \<or> \<not> P (hd rest)"
  shows "takeWhile P (xs @ rest) = xs"
  using assms by (cases rest) (auto simp: list_all_iff takeWhile_append2 intro: takeWhile_eq_all_conv [THEN iffD2])

lemma upto_last_close_run:
  assumes "list_all (\<lambda>c. c \<noteq> CHR ''}'') sp"
  shows "upto_last_close ((body @ ''}'') @ sp) = body @ ''}''"
proof -
  have "dropWhile (\<lambda>c. c \<noteq> CHR ''}'') (rev sp @ rev (body @ ''}''))
          = dropWhile (\<lambda>c. c \<noteq> CHR ''}'') (rev (body @ ''}''))"
    using assms by (intro dropWhile_append2) (simp add: list_all_iff)
  then show ?thesis by (simp add: upto_last_close_def)
qed

lemma match_brace_group:
  assumes "list_all in_brace_class body" and "body \<noteq> []"
    and "list_all (\<lambda>c. in_brace_class c \<and> c \<noteq> CHR ''}'') sp"
    and "rest = [] \<or> \<not> in_brace_class (hd rest)"
  shows "match_brace (CHR ''{'' # body @ CHR ''}'' # sp @ rest) = Some (CHR ''{'' # body @ ''}'')"
proof -
  have c: "list_all in_brace_class ((body @ ''}'') @ sp)"
    using assms(1,3) by (auto simp: in_brace_class_def list_all_iff)
  have n: "list_all (\<lambda>c. c \<noteq> CHR ''}'') sp"
    using assms(3) by (simp add: list_all_iff)
  have "takeWhile in_brace_class (((body @ ''}'') @ sp) @ rest) = (body @ ''}'') @ sp"
    by (rule takeWhile_stop [OF c assms(4)])
  then have t: "takeWhile in_brace_class (body @ CHR ''}'' # sp @ rest) = (body @ ''}'') @ sp"
    by simp
  show ?thesis
    using assms(2) unfolding match_brace_def list.case t upto_last_close_run [OF n] Let_def
    by (cases body) simp_all
qed

lemma findall_group:
  assumes "list_all in_brace_class body" and "body \<noteq> []"
    and "list_all (\<lambda>c. in_brace_class c \<and> c \<noteq> CHR ''}'') sp"
    and "rest = [] \<or> \<not> in_brace_class (hd rest)"
  shows "findall_arg (CHR ''{'' # body @ CHR ''}'' # sp @ rest)
           = (CHR ''{'' # body @ ''}'') # findall_arg (sp @ rest)"
proof -
  have m: "match_arg (CHR ''{'' # body @ CHR ''}'' # sp @ rest) = Some (CHR ''{'' # body @ ''}'')"
    by (simp add: match_arg_def match_brace_group [OF assms])
  have d: "drop (length (CHR ''{'' # body @ ''}'')) (CHR ''{'' # body @ CHR ''}'' # sp @ rest)
             = sp @ rest"
    by simp
  show ?thesis
    unfolding findall_arg.simps m option.case d ..
qed

lemma findall_space:
  assumes "is_space c"
  shows "findall_arg (c # s) = findall_arg s"
proof -
  have "c \<noteq> CHR ''{''" using assms by (auto simp: is_space_def)
  then have "match_arg (c # s) = None"
    using assms by (simp add: match_arg_def match_brace_def match_word_def)
  then show ?thesis by simp
qed

lemma match_brace_word:
  assumes "w \<noteq> []" and "hd w \<noteq> CHR ''{'' \<or> (tl w \<noteq> [] \<and> \<not> in_brace_class (hd (tl w)))"
  shows "match_brace (w @ rest) = None"
proof (cases w)
  case Nil
  with assms show ?thesis by simp
next
  case (Cons a u)
  show ?thesis
  proof (cases "a = CHR ''{''")
    case False
    then show ?thesis using Cons by (simp add: match_brace_def)
  next
    case True
    with assms Cons obtain b v where u: "u = b # v" "\<not> in_brace_class b"
      by (cases u) auto
    show ?thesis using Cons True u by (simp add: match_brace_def upto_last_close_def)
  qed
qed

lemma findall_word:
  assumes "w \<noteq> []" and "list_all (\<lambda>c. \<not> is_space c) w"
    and "hd w \<noteq> CHR ''{'' \<or> (tl w \<noteq> [] \<and> \<not> in_brace_class (hd (tl w)))"
    and "rest = [] \<or> is_space (hd rest)"
  shows "findall_arg (w @ rest) = w # findall_arg rest"
proof -
  have t: "takeWhile (\<lambda>c. \<not> is_space c) (w @ rest) = w"
    using takeWhile_stop [of "\<lambda>c. \<not> is_space c" w rest] assms(2,4) by simp
  have m: "match_arg (w @ rest) = Some w"
    using assms(1) by (simp add: match_arg_def match_brace_word [OF assms(1,3)] match_word_def t)
  obtain a u where w: "w = a # u" using assms(1) by (cases w) auto
  have "findall_arg ((a # u) @ rest) = w # findall_arg (drop (length w) (w @ rest))"
    using m unfolding w by simp
  then show ?thesis using w by simp
qed

lemma match_brace_SomeD:
  assumes "match_brace s = Some t"
  shows "\<exists>body sp rest. s = CHR ''{'' # body @ CHR ''}'' # sp @ rest
           \<and> list_all in_brace_class body \<and> body \<noteq> []
           \<and> list_all (\<lambda>c. in_brace_class c \<and> c \<noteq> CHR ''}'') sp
           \<and> (rest = [] \<or> \<not> in_brace_class (hd rest))
           \<and> t = CHR ''{'' # body @ ''}''"
proof -
  from assms obtain u where s: "s = CHR ''{'' # u"
    by (cases s) (auto simp: match_brace_def split: if_splits)
  define run where "run = takeWhile in_brace_class u"
  define rest where "rest = dropWhile in_brace_class u"
  define r where "r = upto_last_close run"
  define sp where "sp = rev (takeWhile (\<lambda>c. c \<noteq> CHR ''}'') (rev run))"
  have u: "u = run @ rest" by (simp add: run_def rest_def)
  have len: "2 \<le> length r" and t: "t = CHR ''{'' # r"
    using assms unfolding s by (auto simp: match_brace_def Let_def r_def run_def split: if_splits)
  have run: "run = r @ sp"
  proof -
    have "r @ sp = rev (takeWhile (\<lambda>c. c \<noteq> CHR ''}'') (rev run)
                        @ dropWhile (\<lambda>c. c \<noteq> CHR ''}'') (rev run))"
      by (simp only: r_def sp_def upto_last_close_def rev_append)
    also have "\<dots> = rev (rev run)"
      by (simp only: takeWhile_dropWhile_id)
    finally show ?thesis by simp
  qed
  have rne: "dropWhile (\<lambda>c. c \<noteq> CHR ''}'') (rev run) \<noteq> []"
  proof
    assume "dropWhile (\<lambda>c. c \<noteq> CHR ''}'') (rev run) = []"
    then have "r = []" by (simp only: r_def upto_last_close_def rev.simps)
    with len show False by simp
  qed
  then have "hd (dropWhile (\<lambda>c. c \<noteq> CHR ''}'') (rev run)) = CHR ''}''"
    using hd_dropWhile [of "\<lambda>c. c \<noteq> CHR ''}''" "rev run"] by simp
  then have "last r = CHR ''}''"
    using rne by (simp add: r_def upto_last_close_def last_rev)
  moreover have "r \<noteq> []" using len by auto
  ultimately have r: "r = butlast r @ ''}''"
    using append_butlast_last_id [of r] by simp
  have bne: "butlast r \<noteq> []" using len by (cases r) (auto split: if_splits)
  have cls: "list_all in_brace_class run"
    by (auto simp: run_def list_all_iff dest: set_takeWhileD)
  then have cr: "list_all in_brace_class (butlast r)"
    unfolding run by (auto simp: list_all_iff dest: in_set_butlastD)
  have csp: "list_all (\<lambda>c. in_brace_class c \<and> c \<noteq> CHR ''}'') sp"
    using cls unfolding run by (auto simp: list_all_iff sp_def dest: set_takeWhileD)
  have rst: "rest = [] \<or> \<not> in_brace_class (hd rest)"
    using hd_dropWhile [of in_brace_class u] by (auto simp: rest_def)
  have "s = CHR ''{'' # butlast r @ CHR ''}'' # sp @ rest"
    using s u run r by (metis append_Cons append_Nil append_assoc)
  moreover have "t = CHR ''{'' # butlast r @ ''}''" using t r by simp
  ultimately show ?thesis using cr bne csp rst by blast
qed

lemma match_word_run:
  assumes "w \<noteq> []" and "list_all (\<lambda>c. \<not> is_space c) w" and "rest = [] \<or> is_space (hd rest)"
  shows "match_word (w @ rest) = Some w"
proof -
  have "takeWhile (\<lambda>c. \<not> is_space c) (w @ rest) = w"
    using assms(2,3) by (cases rest) (auto simp: list_all_iff)
  then show ?thesis using assms(1) by (simp add: match_word_def)
qed

lemma findall_plain:
  assumes "w \<noteq> []" and "list_all (\<lambda>c. \<not> is_space c) w" and "rest = [] \<or> is_space (hd rest)"
    and "match_brace (w @ rest) = None"
  shows "findall_arg (w @ rest) = w # findall_arg rest"
proof -
  have m: "match_arg (w @ rest) = Some w"
    by (simp add: match_arg_def assms(4) match_word_run [OF assms(1,2,3)])
  obtain a u where w: "w = a # u" using assms(1) by (cases w) auto
  have "findall_arg ((a # u) @ rest) = w # findall_arg (drop (length w) (w @ rest))"
    using m unfolding w by simp
  then show ?thesis using w by simp
qed

lemma findall_merged:
  assumes "list_all in_brace_class b1" and "b1 \<noteq> []" and "list_all in_brace_class mid"
    and "list_all in_brace_class b2"
  shows "findall_arg (''{'' @ b1 @ ''}'' @ mid @ ''{'' @ b2 @ ''}'')
           = [''{'' @ b1 @ ''}'' @ mid @ ''{'' @ b2 @ ''}'']"
proof -
  have c: "list_all in_brace_class (b1 @ ''}'' @ mid @ ''{'' @ b2)"
    using assms(1,3,4) by (simp add: in_brace_class_def)
  have "findall_arg (CHR ''{'' # (b1 @ ''}'' @ mid @ ''{'' @ b2) @ CHR ''}'' # [] @ [])
          = (CHR ''{'' # (b1 @ ''}'' @ mid @ ''{'' @ b2) @ ''}'') # findall_arg ([] @ [])"
    by (rule findall_group [OF c]) simp_all
  then show ?thesis by simp
qed

lemma findall_separate:
  assumes "list_all in_brace_class b1" and "b1 \<noteq> []"
    and "list_all in_brace_class b2" and "b2 \<noteq> []"
    and "w \<noteq> []" and "list_all (\<lambda>c. \<not> is_space c) w" and "\<not> in_brace_class (hd w)"
  shows "findall_arg (''{'' @ b1 @ ''} '' @ w @ '' {'' @ b2 @ ''}'')
           = [''{'' @ b1 @ ''}'', w, ''{'' @ b2 @ ''}'']"
proof -
  have sp: "is_space (CHR '' '')" by (simp add: is_space_def)
  have "findall_arg (CHR ''{'' # b1 @ CHR ''}'' # '' '' @ (w @ '' {'' @ b2 @ ''}''))
          = (CHR ''{'' # b1 @ ''}'') # findall_arg ('' '' @ (w @ '' {'' @ b2 @ ''}''))"
    using assms(5,7) by (intro findall_group [OF assms(1,2)]) (simp_all add: in_brace_class_def is_space_def)
  also have "findall_arg ('' '' @ (w @ '' {'' @ b2 @ ''}'')) = findall_arg (w @ ('' {'' @ b2 @ ''}''))"
    using findall_space [OF sp] by simp
  also have "\<dots> = w # findall_arg ('' {'' @ b2 @ ''}'')"
    using assms(7) by (intro findall_word [OF assms(5,6)]) (auto simp: in_brace_class_def is_space_def)
  also have "findall_arg ('' {'' @ b2 @ ''}'') = findall_arg (CHR ''{'' # b2 @ CHR ''}'' # [] @ [])"
    using findall_space [OF sp] by simp
  also have "\<dots> = (CHR ''{'' # b2 @ ''}'') # findall_arg ([] @ [])"
    by (rule findall_group [OF assms(3,4)]) simp_all
  finally show ?thesis by simp
qed

text \<open>
  Claim C8, as the code has it. Whitespace between tokens is skipped. A token that starts
  with an opening brace runs to the last closing brace of the longest stretch of brace,
  dot, digit and whitespace characters behind the opening brace, provided at least one
  character stands between the two; braces are not counted against each other. Where
  the text at hand has no such shape, the token is the longest stretch of non-whitespace
  characters. So two brace groups with nothing but such characters between them are one
  token, two brace groups with a word between them (a knob name, say) are two tokens,
  and the nested group \<^verbatim>\<open>{{.1 .2} {.3 .4}}\<close> is one token.
\<close>

theorem token_rules:
  "(list_all in_brace_class body \<and> body \<noteq> []
      \<and> list_all (\<lambda>c. in_brace_class c \<and> c \<noteq> CHR ''}'') sp
      \<and> (rest = [] \<or> \<not> in_brace_class (hd rest)) \<longrightarrow>
      findall_arg (CHR ''{'' # body @ CHR ''}'' # sp @ rest)
        = (CHR ''{'' # body @ ''}'') # findall_arg (sp @ rest))
   \<and> (is_space c \<longrightarrow> findall_arg (c # s) = findall_arg s)
   \<and> (w \<noteq> [] \<and> list_all (\<lambda>c. \<not> is_space c) w \<and> (rest = [] \<or> is_space (hd rest))
      \<and> \<not> (\<exists>body sp r. w @ rest = CHR ''{'' # body @ CHR ''}'' # sp @ r
               \<and> list_all in_brace_class body \<and> body \<noteq> []
               \<and> list_all (\<lambda>c. in_brace_class c \<and> c \<noteq> CHR ''}'') sp
               \<and> (r = [] \<or> \<not> in_brace_class (hd r))) \<longrightarrow>
      findall_arg (w @ rest) = w # findall_arg rest)
   \<and> (list_all in_brace_class b1 \<and> b1 \<noteq> [] \<and> list_all in_brace_class mid
      \<and> list_all in_brace_class b2 \<longrightarrow>
      findall_arg (''{'' @ b1 @ ''}'' @ mid @ ''{'' @ b2 @ ''}'')
        = [''{'' @ b1 @ ''}'' @ mid @ ''{'' @ b2 @ ''}''])
   \<and> (list_all in_brace_class b1 \<and> b1 \<noteq> [] \<and> list_all in_brace_class b2 \<and> b2 \<noteq> []
      \<and> w \<noteq> [] \<and> list_all (\<lambda>c. \<not> is_space c) w \<and> \<not> in_brace_class (hd w) \<longrightarrow>
      findall_arg (''{'' @ b1 @ ''} '' @ w @ '' {'' @ b2 @ ''}'')
        = [''{'' @ b1 @ ''}'', w, ''{'' @ b2 @ ''}''])
   \<and> findall_arg ''{{.1 .2} {.3 .4}}'' = [''{{.1 .2} {.3 .4}}'']"
proof (intro conjI impI)
  show "findall_arg ''{{.1 .2} {.3 .4}}'' = [''{{.1 .2} {.3 .4}}'']"
    by code_simp
next
  assume h: "w \<noteq> [] \<and> list_all (\<lambda>c. \<not> is_space c) w \<and> (rest = [] \<or> is_space (hd rest))
      \<and> \<not> (\<exists>body sp r. w @ rest = CHR ''{'' # body @ CHR ''}'' # sp @ r
               \<and> list_all in_brace_class body \<and> body \<noteq> []
               \<and> list_all (\<lambda>c. in_brace_class c \<and> c \<noteq> CHR ''}'') sp
               \<and> (r = [] \<or> \<not> in_brace_class (hd r)))"
  have "match_brace (w @ rest) = None"
  proof (cases "match_brace (w @ rest)")
    case None
    then show ?thesis .
  next
    case (Some t)
    from match_brace_SomeD [OF this] h show ?thesis by blast
  qed
  with h show "findall_arg (w @ rest) = w # findall_arg rest"
    using findall_plain by blast
qed (use findall_group findall_space findall_merged findall_separate in blast)+

text \<open>Two brace values with a knob name between them.\<close>

theorem token_rules_witness:
  "findall_arg ''{.1 .2} whitepoint {.3 .4}'' = [''{.1 .2}'', ''whitepoint'', ''{.3 .4}'']"
proof -
  have c: "list_all in_brace_class ''.1 .2''" "list_all in_brace_class ''.3 .4''"
    "list_all (\<lambda>c. \<not> is_space c) ''whitepoint''" "\<not> in_brace_class (hd ''whitepoint'')"
    by code_simp+
  have "findall_arg (''{'' @ ''.1 .2'' @ ''} '' @ ''whitepoint'' @ '' {'' @ ''.3 .4'' @ ''}'')
          = [''{'' @ ''.1 .2'' @ ''}'', ''whitepoint'', ''{'' @ ''.3 .4'' @ ''}'']"
    using token_rules [where ?b1.0 = "''.1 .2''" and ?b2.0 = "''.3 .4''" and w = "''whitepoint''"] c
    by blast
  then show ?thesis by simp
qed

text \<open>Claim C8 as stated fails: two separate brace values next to each other come out
  as one token, and a brace group with letters inside is cut at its whitespace.\<close>

theorem token_rules_counterexample:
  "findall_arg ''{1} {2}'' = [''{1} {2}''] \<and> findall_arg ''{a b}'' = [''{a'', ''b}'']"
  by code_simp

section \<open>Class resolver\<close>

lemma sorted_le_last:
  fixes xs :: "'a::linorder list"
  shows "sorted xs \<Longrightarrow> y \<in> set xs \<Longrightarrow> y \<le> last xs"
proof (induction xs)
  case Nil
  then show ?case by simp
next
  case (Cons x xs)
  show ?case
  proof (cases "xs = []")
    case True
    with Cons.prems show ?thesis by simp
  next
    case False
    then have l: "last xs \<in> set xs" by (rule last_in_set)
    show ?thesis
    proof (cases "y = x")
      case True
      with Cons.prems(1) l False show ?thesis by auto
    next
      case False
      with Cons \<open>xs \<noteq> []\<close> show ?thesis by auto
    qed
  qed
qed

lemma last_sort_Max:
  fixes xs :: "'a::linorder list"
  assumes "xs \<noteq> []"
  shows "last (sort xs) = Max (set xs)"
proof -
  have ne: "sort xs \<noteq> []" using assms by (metis length_0_conv length_sort)
  have "Max (set (sort xs)) = last (sort xs)"
  proof (rule Max_eqI)
    show "finite (set (sort xs))" by simp
    show "last (sort xs) \<in> set (sort xs)" using ne by (rule last_in_set)
    fix y assume "y \<in> set (sort xs)"
    then show "y \<le> last (sort xs)" using sorted_le_last [of "sort xs" y] by simp
  qed
  then show ?thesis by simp
qed

lemma getNukeNode_exact:
  assumes "pattern_atoms cand = Some as" and "filter (ver_match False as) ps \<noteq> []"
  shows "getNukeNode ps cand = Inr (last (sort (filter (ver_match False as) ps)))"
  using assms by (simp add: getNukeNode_def)

lemma getNukeNode_nocase:
  assumes "pattern_atoms cand = Some as" and "filter (ver_match False as) ps = []"
    and "filter (ver_match True as) ps \<noteq> []"
  shows "getNukeNode ps cand = Inr (last (sort (filter (ver_match True as) ps)))"
  using assms by (simp add: getNukeNode_def)

lemma getNukeNode_partial:
  assumes "pattern_atoms cand = Some as" and "filter (ver_match False as) ps = []"
    and "filter (ver_match True as) ps = []"
  shows "getNukeNode ps cand
           = (if filter (prefix_match True as) ps = [] then Inl (ValueError (nomatch_msg cand))
              else if 1 < length (filter (prefix_match True as) ps)
              then Inl (ValueError (ambiguous_msg cand (filter (prefix_match True as) ps)))
              else Inr (hd (filter (prefix_match True as) ps)))"
  using assms by (simp add: getNukeNode_def)

lemma Max_Blur: "Max {''Blur'', ''Blur2''} = ''Blur2''"
proof -
  have "(''Blur'' :: string) \<le> ''Blur2''" by code_simp
  then show ?thesis by (simp add: max_def)
qed

text \<open>
  Claim C7. Whenever the exact tier (the candidate, an optional digit, the end) matches
  some catalog entries, the resolver returns the last of them in sorted order, which is
  their greatest in the lexicographic order of strings; when the exact tier matches
  nothing and the case-insensitive one matches something, the same holds of those. In
  particular when the matches of the tier are \<open>Blur\<close> and \<open>Blur2\<close> the result is \<open>Blur2\<close>.
  The candidate is any one the pattern reading above covers.
\<close>

theorem version_tier:
  assumes "pattern_atoms cand = Some as"
  shows "(filter (ver_match False as) ps \<noteq> [] \<longrightarrow>
            getNukeNode ps cand = Inr (last (sort (filter (ver_match False as) ps)))
            \<and> getNukeNode ps cand = Inr (Max (set (filter (ver_match False as) ps))))
       \<and> (filter (ver_match False as) ps = [] \<and> filter (ver_match True as) ps \<noteq> [] \<longrightarrow>
            getNukeNode ps cand = Inr (last (sort (filter (ver_match True as) ps)))
            \<and> getNukeNode ps cand = Inr (Max (set (filter (ver_match True as) ps))))
       \<and> (set (filter (ver_match False as) ps) = {''Blur'', ''Blur2''} \<longrightarrow>
            getNukeNode ps cand = Inr ''Blur2'')
       \<and> (filter (ver_match False as) ps = []
            \<and> set (filter (ver_match True as) ps) = {''Blur'', ''Blur2''} \<longrightarrow>
            getNukeNode ps cand = Inr ''Blur2'')"
proof (intro conjI impI)
  assume h: "filter (ver_match False as) ps \<noteq> []"
  show g: "getNukeNode ps cand = Inr (last (sort (filter (ver_match False as) ps)))"
    by (rule getNukeNode_exact [OF assms h])
  show "getNukeNode ps cand = Inr (Max (set (filter (ver_match False as) ps)))"
    unfolding g last_sort_Max [OF h] ..
next
  assume h: "filter (ver_match False as) ps = [] \<and> filter (ver_match True as) ps \<noteq> []"
  then have h1: "filter (ver_match False as) ps = []" and h2: "filter (ver_match True as) ps \<noteq> []"
    by blast+
  show g: "getNukeNode ps cand = Inr (last (sort (filter (ver_match True as) ps)))"
    by (rule getNukeNode_nocase [OF assms h1 h2])
  show "getNukeNode ps cand = Inr (Max (set (filter (ver_match True as) ps)))"
    unfolding g last_sort_Max [OF h2] ..
next
  assume h: "set (filter (ver_match False as) ps) = {''Blur'', ''Blur2''}"
  have ne: "filter (ver_match False as) ps \<noteq> []"
  proof
    assume "filter (ver_match False as) ps = []"
    then have "set (filter (ver_match False as) ps) = {}" by (simp only: set_empty2 list.set)
    with h show False by (simp only: insert_not_empty not_False_eq_True empty_not_insert)
  qed
  have "getNukeNode ps cand = Inr (Max (set (filter (ver_match False as) ps)))"
    unfolding getNukeNode_exact [OF assms ne] last_sort_Max [OF ne] ..
  then show "getNukeNode ps cand = Inr ''Blur2''"
    unfolding h Max_Blur .
next
  assume h: "filter (ver_match False as) ps = []
            \<and> set (filter (ver_match True as) ps) = {''Blur'', ''Blur2''}"
  then have h1: "filter (ver_match False as) ps = []"
    and h2: "set (filter (ver_match True as) ps) = {''Blur'', ''Blur2''}"
    by blast+
  have ne: "filter (ver_match True as) ps \<noteq> []"
  proof
    assume "filter (ver_match True as) ps = []"
    then have "set (filter (ver_match True as) ps) = {}" by (simp only: set_empty2 list.set)
    with h2 show False by (simp only: insert_not_empty not_False_eq_True empty_not_insert)
  qed
  have "getNukeNode ps cand = Inr (Max (set (filter (ver_match True as) ps)))"
    unfolding getNukeNode_nocase [OF assms h1 ne] last_sort_Max [OF ne] ..
  then show "getNukeNode ps cand = Inr ''Blur2''"
    unfolding h2 Max_Blur .
qed

subsection \<open>Candidates without operators\<close>

lemma literal_atoms: "literal s \<Longrightarrow> pattern_atoms s = Some (map Lit s)"
  by (induction s) (auto simp: literal_def)

lemma match_atoms_exact:
  "match_atoms False (map Lit s) item = (if prefix s item then Some (drop (length s) item) else None)"
proof (induction s arbitrary: item)
  case Nil
  then show ?case by simp
next
  case (Cons c s)
  then show ?case by (cases item) auto
qed

lemma match_atoms_nocase:
  "match_atoms True (map Lit s) item
     = (if prefix (map lower s) (map lower item) then Some (drop (length s) item) else None)"
proof (induction s arbitrary: item)
  case Nil
  then show ?case by simp
next
  case (Cons c s)
  then show ?case by (cases item) auto
qed

lemma prefix_match_nocase:
  "prefix_match True (map Lit s) item \<longleftrightarrow> prefix (map lower s) (map lower item)"
  by (simp add: prefix_match_def match_atoms_nocase)

lemma ver_match_exact:
  "ver_match False (map Lit s) item \<longleftrightarrow> (\<exists>t. item = s @ t \<and> ver_tail t)"
  by (auto simp: ver_match_def match_atoms_exact prefix_def)

lemma ver_match_nocase:
  "ver_match True (map Lit s) item
     \<longleftrightarrow> (\<exists>n t. item = n @ t \<and> map lower n = map lower s \<and> ver_tail t)"
proof
  assume "ver_match True (map Lit s) item"
  then have p: "prefix (map lower s) (map lower item)" and v: "ver_tail (drop (length s) item)"
    by (auto simp: ver_match_def match_atoms_nocase split: if_splits)
  from p have "length s \<le> length item" using prefix_length_le by fastforce
  with p have "map lower (take (length s) item) = map lower s"
    by (metis append_eq_conv_conj length_map prefix_def take_map)
  with v show "\<exists>n t. item = n @ t \<and> map lower n = map lower s \<and> ver_tail t"
    by (metis append_take_drop_id)
next
  assume "\<exists>n t. item = n @ t \<and> map lower n = map lower s \<and> ver_tail t"
  then obtain n t where h: "item = n @ t" "map lower n = map lower s" "ver_tail t" by blast
  from h(2) have "length n = length s" by (metis length_map)
  with h show "ver_match True (map Lit s) item"
    by (simp add: ver_match_def match_atoms_nocase)
qed

text \<open>
  The partial tier, for a candidate without regular-expression operators. When neither version
  tier matches anything, the entries that have the candidate as a prefix, letter case
  aside, decide: exactly one is returned; more than one give a \<open>ValueError\<close> whose message
  holds the candidate and all the matching names, joined by commas; none gives a
  \<open>ValueError\<close> whose message holds the candidate.
\<close>

theorem partial_tier:
  assumes "literal cand"
    and "filter (ver_match False (map Lit cand)) ps = []"
    and "filter (ver_match True (map Lit cand)) ps = []"
  defines "ms \<equiv> filter (\<lambda>p. prefix (map lower cand) (map lower p)) ps"
  shows "(length ms = 1 \<longrightarrow> getNukeNode ps cand = Inr (hd ms))
       \<and> (1 < length ms \<longrightarrow>
            getNukeNode ps cand
              = Inl (ValueError (''Input argument '' @ [CHR 0x27] @ cand @ [CHR 0x27]
                      @ '' partially matched the following node classes:''
                      @ [CHR 0x0A, CHR 0x09] @ join '', '' ms)))
       \<and> (ms = [] \<longrightarrow>
            getNukeNode ps cand
              = Inl (ValueError (''Input argument '' @ [CHR 0x27] @ cand @ [CHR 0x27]
                      @ '' could not be matched to a node class'')))"
proof -
  have m: "filter (prefix_match True (map Lit cand)) ps = ms"
    unfolding ms_def by (rule filter_cong) (simp_all add: prefix_match_nocase)
  have g: "getNukeNode ps cand
           = (if ms = [] then Inl (ValueError (nomatch_msg cand))
              else if 1 < length ms then Inl (ValueError (ambiguous_msg cand ms))
              else Inr (hd ms))"
    using getNukeNode_partial [OF literal_atoms [OF assms(1)] assms(2,3)] unfolding m .
  show ?thesis
    unfolding g by (auto simp: nomatch_msg_def ambiguous_msg_def)
qed

text \<open>
  Claim C6, at a candidate with an operator in it. No entry has \<open>b.u\<close> as a prefix, in
  any letter case, and yet the resolver returns \<open>Blur\<close>: the candidate is pasted into the
  pattern as it is, so its dot stands for any character.
\<close>

theorem partial_tier_operator_input:
  "getNukeNode [''Blur''] ''b.u'' = Inr ''Blur''
   \<and> \<not> prefix (map lower ''b.u'') (map lower ''Blur'')"
  by code_simp

text \<open>On the sample host: \<open>Blur\<close> at the exact tier, \<open>merge\<close> at the case-insensitive one.\<close>

theorem version_tier_witness:
  "getNukeNode (allPlugins sample_env) ''Blur'' = Inr ''Blur2''
   \<and> getNukeNode (allPlugins sample_env) ''merge'' = Inr ''Merge2''"
proof -
  have a: "pattern_atoms ''Blur'' = Some (map Lit ''Blur'')" by code_simp
  have "filter (ver_match False (map Lit ''Blur'')) (allPlugins sample_env) = [''Blur'', ''Blur2'']"
    by code_simp
  then have f: "set (filter (ver_match False (map Lit ''Blur'')) (allPlugins sample_env))
                  = {''Blur'', ''Blur2''}"
    by simp
  have one: "getNukeNode (allPlugins sample_env) ''Blur'' = Inr ''Blur2''"
    using version_tier [OF a, of "allPlugins sample_env"] f by blast
  have b: "pattern_atoms ''merge'' = Some (map Lit ''merge'')" by code_simp
  have g: "filter (ver_match False (map Lit ''merge'')) (allPlugins sample_env) = []"
    "filter (ver_match True (map Lit ''merge'')) (allPlugins sample_env) = [''Merge'', ''Merge2'']"
    by code_simp+
  have s: "last (sort [''Merge'', ''Merge2'']) = ''Merge2''" by code_simp
  have "getNukeNode (allPlugins sample_env) ''merge''
          = Inr (last (sort (filter (ver_match True (map Lit ''merge'')) (allPlugins sample_env))))"
    using version_tier [OF b, of "allPlugins sample_env"] g by simp
  then have two: "getNukeNode (allPlugins sample_env) ''merge'' = Inr ''Merge2''"
    unfolding g s .
  from one two show ?thesis by blast
qed

text \<open>On the sample host: \<open>gr\<close> finds \<open>Grade\<close>, \<open>bl\<close> is ambiguous, \<open>x\<close> matches nothing.\<close>

theorem partial_tier_witness:
  "getNukeNode (allPlugins sample_env) ''gr'' = Inr ''Grade''
   \<and> getNukeNode (allPlugins sample_env) ''bl''
       = Inl (ValueError (ambiguous_msg ''bl'' [''Blur'', ''Blur2'']))
   \<and> getNukeNode (allPlugins sample_env) ''x'' = Inl (ValueError (nomatch_msg ''x''))"
proof -
  have l: "literal ''gr''" "literal ''bl''" "literal ''x''" by code_simp+
  have n: "filter (ver_match False (map Lit ''gr'')) (allPlugins sample_env) = []"
    "filter (ver_match True (map Lit ''gr'')) (allPlugins sample_env) = []"
    "filter (ver_match False (map Lit ''bl'')) (allPlugins sample_env) = []"
    "filter (ver_match True (map Lit ''bl'')) (allPlugins sample_env) = []"
    "filter (ver_match False (map Lit ''x'')) (allPlugins sample_env) = []"
    "filter (ver_match True (map Lit ''x'')) (allPlugins sample_env) = []"
    by code_simp+
  have m: "filter (\<lambda>p. prefix (map lower ''gr'') (map lower p)) (allPlugins sample_env) = [''Grade'']"
    "filter (\<lambda>p. prefix (map lower ''bl'') (map lower p)) (allPlugins sample_env) = [''Blur'', ''Blur2'']"
    "filter (\<lambda>p. prefix (map lower ''x'') (map lower p)) (allPlugins sample_env) = []"
    by code_simp+
  have a: "getNukeNode (allPlugins sample_env) ''gr'' = Inr ''Grade''"
    using partial_tier [OF l(1) n(1,2)] unfolding m by simp
  have b: "getNukeNode (allPlugins sample_env) ''bl''
       = Inl (ValueError (ambiguous_msg ''bl'' [''Blur'', ''Blur2'']))"
    using partial_tier [OF l(2) n(3,4)] unfolding m by (simp add: ambiguous_msg_def)
  have c: "getNukeNode (allPlugins sample_env) ''x'' = Inl (ValueError (nomatch_msg ''x''))"
    using partial_tier [OF l(3) n(5,6)] unfolding m by (simp add: nomatch_msg_def)
  from a b c show ?thesis by blast
qed

section \<open>The loop\<close>

lemma run_lines_append:
  "run_lines e st (xs @ ys)
     = (case run_lines e st xs of Inl err \<Rightarrow> Inl err | Inr st' \<Rightarrow> run_lines e st' ys)"
  by (induction xs arbitrary: st) (auto split: sum.splits)

lemma append_execs_eq: "append_execs stack xs = stack @ map exec_stmt xs"
  by (induction xs arbitrary: stack) auto

lemma emit_fields [simp]:
  "cmdStack (emit s st) = cmdStack st @ [s]"
  "execNodes (emit s st) = execNodes st"
  "varMap (emit s st) = varMap st"
  "rand_calls (emit s st) = rand_calls st"
  "printed (emit s st) = printed st"
  by (simp_all add: emit_def)

lemma say_fields [simp]:
  "cmdStack (say m st) = cmdStack st"
  "execNodes (say m st) = execNodes st"
  "varMap (say m st) = varMap st"
  "rand_calls (say m st) = rand_calls st"
  "printed (say m st) = printed st @ [m]"
  by (simp_all add: say_def)

lemma process_line_cmd:
  "parseLine line = Inr (cmd, args) \<Longrightarrow> process_line e st line = process_cmd e st cmd args"
  by (simp add: process_line_def)

lemma process_cmd_set:
  "process_cmd e st ''set'' [v]
     = Inr (emit (capture_stmt (generateNodeID e (rand_calls st) v))
             (st\<lparr>varMap := AList.update v (generateNodeID e (rand_calls st) v) (varMap st),
                 rand_calls := Suc (rand_calls st)\<rparr>))"
  by (simp add: process_cmd_def Let_def)

lemma process_cmd_push:
  "process_cmd e st ''push'' [v]
     = (case map_of (varMap st) v of
          None \<Rightarrow> Inl (KeyError v)
        | Some varID \<Rightarrow> Inr (emit (if v \<noteq> ''0'' then ''push $'' @ varID else ''push 0'') st))"
  by (simp add: process_cmd_def Let_def split: option.splits)

lemma process_cmd_execute:
  "process_cmd e st ''execute'' args
     = Inr (emit (capture_stmt (generateNodeID e (rand_calls st) ''execute''))
             (st\<lparr>execNodes := execNodes st
                     @ [(generateNodeID e (rand_calls st) ''execute'',
                         if args = [] then None else Some (hd args))],
                 rand_calls := Suc (rand_calls st)\<rparr>))"
  by (simp add: process_cmd_def Let_def)

lemma process_cmd_save: "process_cmd e st ''save'' args = do_save e st args"
  by (simp add: process_cmd_def)

lemma process_cmd_node:
  assumes "\<not> (cmd = ''set'' \<and> length args = 1)" and "\<not> (cmd = ''push'' \<and> length args = 1)"
    and "cmd \<noteq> ''execute''" and "cmd \<noteq> ''save''"
  shows "process_cmd e st cmd args
     = (case getNukeNode (allPlugins e) cmd of
          Inl err \<Rightarrow> Inl err
        | Inr node \<Rightarrow> Inr (emit (node_stmt node args) st))"
  using assms by (auto simp: process_cmd_def)

section \<open>Saving\<close>





section \<open>Argument counts\<close>

lemma run_lines_abort:
  assumes "run_lines e st0 pre = Inr st" and "process_line e st line = Inl err"
  shows "run_lines e st0 (pre @ line # rest) = Inl err"
  using assms by (simp add: run_lines_append)

lemma parseCLI_abort:
  assumes "cli_lines rawInput = pre @ line # rest"
    and "run_lines e init_state pre = Inr st" and "process_line e st line = Inl err"
  shows "parseCLI e rawInput = Inl err"
  using run_lines_abort [OF assms(2,3), of rest] assms(1) by (simp add: parseCLI_def)

text \<open>
  Claim C2, as the code has it. The loop checks no argument counts as such.
  \<^verbatim>\<open>save\<close> without an argument fails with \<open>IndexError\<close>. \<^verbatim>\<open>execute\<close> accepts any
  number of arguments: it takes the first as the frame range and ignores the others.
  \<^verbatim>\<open>set\<close> and \<^verbatim>\<open>push\<close> with an argument count other than one are handed to the class
  resolver like any node class name: a node statement is emitted if the name resolves,
  and the resolver's error is raised otherwise. Whatever error a command raises ends the
  compilation, and no program is returned.
\<close>

theorem keyword_arity:
  "(parseLine line = Inr (''save'', []) \<longrightarrow> process_line e st line = Inl IndexError)
   \<and> (parseLine line = Inr (''execute'', args) \<longrightarrow>
        process_line e st line
          = Inr (emit (capture_stmt (generateNodeID e (rand_calls st) ''execute''))
                  (st\<lparr>execNodes := execNodes st
                          @ [(generateNodeID e (rand_calls st) ''execute'',
                              if args = [] then None else Some (hd args))],
                      rand_calls := Suc (rand_calls st)\<rparr>)))
   \<and> (parseLine line = Inr (cmd, args) \<and> (cmd = ''set'' \<or> cmd = ''push'') \<and> length args \<noteq> 1 \<longrightarrow>
        process_line e st line
          = (case getNukeNode (allPlugins e) cmd of
               Inl err \<Rightarrow> Inl err
             | Inr node \<Rightarrow> Inr (emit (node_stmt node args) st)))
   \<and> (cli_lines rawInput = pre @ line # rest \<and> run_lines e init_state pre = Inr st
        \<and> process_line e st line = Inl err \<and> raised err \<longrightarrow> parseCLI e rawInput = Inl err)"
proof (intro conjI impI)
  assume "parseLine line = Inr (''save'', [])"
  then show "process_line e st line = Inl IndexError"
    by (simp add: process_line_def process_cmd_def do_save_def)
next
  assume "parseLine line = Inr (''execute'', args)"
  then show "process_line e st line
          = Inr (emit (capture_stmt (generateNodeID e (rand_calls st) ''execute''))
                  (st\<lparr>execNodes := execNodes st
                          @ [(generateNodeID e (rand_calls st) ''execute'',
                              if args = [] then None else Some (hd args))],
                      rand_calls := Suc (rand_calls st)\<rparr>))"
    by (simp add: process_line_def process_cmd_execute)
next
  assume "parseLine line = Inr (cmd, args) \<and> (cmd = ''set'' \<or> cmd = ''push'') \<and> length args \<noteq> 1"
  then show "process_line e st line
          = (case getNukeNode (allPlugins e) cmd of
               Inl err \<Rightarrow> Inl err
             | Inr node \<Rightarrow> Inr (emit (node_stmt node args) st))"
    by (auto simp: process_line_def process_cmd_node)
next
  assume "cli_lines rawInput = pre @ line # rest \<and> run_lines e init_state pre = Inr st
        \<and> process_line e st line = Inl err \<and> raised err"
  then show "parseCLI e rawInput = Inl err"
    using parseCLI_abort by blast
qed

text \<open>On the sample host, which has no class whose name starts with \<open>set\<close>.\<close>

theorem keyword_arity_witness:
  "process_line sample_env init_state ''save'' = Inl IndexError
   \<and> parseCLI sample_env ''-grade -save'' = Inl IndexError
   \<and> process_line sample_env init_state ''set a b'' = Inl (ValueError (nomatch_msg ''set''))"
proof -
  have p: "parseLine ''save'' = Inr (''save'', [])" by code_simp
  have a: "process_line sample_env init_state ''save'' = Inl IndexError"
    using keyword_arity [where line = "''save''" and e = sample_env and st = init_state] p by blast
  have l: "cli_lines ''-grade -save'' = [''grade''] @ ''save'' # []" by code_simp
  have r: "run_lines sample_env init_state [''grade'']
             = Inr \<lparr>cmdStack = [''Grade {}''], execNodes = [], varMap = [(''0'', ''0'')],
                    rand_calls = 0, printed = []\<rparr>"
    by code_simp
  have s: "process_line sample_env \<lparr>cmdStack = [''Grade {}''], execNodes = [],
             varMap = [(''0'', ''0'')], rand_calls = 0, printed = []\<rparr> ''save'' = Inl IndexError"
    using keyword_arity [where line = "''save''"] p by blast
  have b: "parseCLI sample_env ''-grade -save'' = Inl IndexError"
    using keyword_arity [where e = sample_env and rawInput = "''-grade -save''"
        and pre = "[''grade'']" and line = "''save''" and rest = "[]" and err = IndexError] l r s
    by simp
  have q: "parseLine ''set a b'' = Inr (''set'', [''a'', ''b''])" by code_simp
  have g: "getNukeNode (allPlugins sample_env) ''set'' = Inl (ValueError (nomatch_msg ''set''))"
    by code_simp
  have c: "process_line sample_env init_state ''set a b'' = Inl (ValueError (nomatch_msg ''set''))"
    using keyword_arity [where line = "''set a b''" and e = sample_env and st = init_state
        and cmd = "''set''" and args = "[''a'', ''b'']"] q g
    by simp
  from a b c show ?thesis by blast
qed

text \<open>Claim C2 as stated fails: \<^verbatim>\<open>execute\<close> with two arguments compiles.\<close>

theorem arity_counterexample:
  "parseCLI sample_env ''-execute 1 2'' = Inr ''set N30 [stack 0];execute $N30 1;''"
  by code_simp

section \<open>The variable table\<close>

lemma do_save_varMap: "do_save e st args = Inr st' \<Longrightarrow> varMap st' = varMap st"
  by (auto simp: do_save_def split: list.splits if_splits)

lemma process_cmd_varMap:
  assumes "process_cmd e st cmd args = Inr st'"
  shows "varMap st'
           = (if cmd = ''set'' \<and> length args = 1
              then AList.update (hd args) (generateNodeID e (rand_calls st) (hd args)) (varMap st)
              else varMap st)"
  using assms
  by (auto simp: process_cmd_def Let_def do_save_varMap split: if_splits option.splits sum.splits)

lemma process_line_varMap:
  assumes "process_line e st line = Inr st'"
  shows "varMap st'
           = (case set_name line of
                Some v \<Rightarrow> AList.update v (generateNodeID e (rand_calls st) v) (varMap st)
              | None \<Rightarrow> varMap st)"
  using assms process_cmd_varMap
  by (auto simp: process_line_def set_name_def split: sum.splits prod.splits)

lemma run_lines_dom:
  assumes "run_lines e st ls = Inr st'"
  shows "dom (map_of (varMap st')) = dom (map_of (varMap st)) \<union> {v. \<exists>l\<in>set ls. set_name l = Some v}"
  using assms
proof (induction ls arbitrary: st)
  case Nil
  then show ?case by simp
next
  case (Cons l ls)
  then obtain s1 where s1: "process_line e st l = Inr s1" "run_lines e s1 ls = Inr st'"
    by (auto split: sum.splits)
  have "dom (map_of (varMap s1)) = dom (map_of (varMap st)) \<union> {v. set_name l = Some v}"
    using process_line_varMap [OF s1(1)] by (auto simp: update_conv' split: option.splits if_splits)
  with Cons.IH [OF s1(2)] show ?case by auto
qed

lemma run_lines_untouched:
  assumes "run_lines e st ls = Inr st'" and "\<forall>l\<in>set ls. set_name l \<noteq> Some v"
  shows "map_of (varMap st') v = map_of (varMap st) v"
  using assms
proof (induction ls arbitrary: st)
  case Nil
  then show ?case by simp
next
  case (Cons l ls)
  then obtain s1 where s1: "process_line e st l = Inr s1" "run_lines e s1 ls = Inr st'"
    by (auto split: sum.splits)
  have "map_of (varMap s1) v = map_of (varMap st) v"
    using process_line_varMap [OF s1(1)] Cons.prems(2)
    by (auto simp: update_conv' split: option.splits)
  with Cons.IH [OF s1(2)] Cons.prems(2) show ?case by simp
qed

text \<open>
  Claim C3. After any commands that ran without error, a \<^verbatim>\<open>push\<close> with one argument
  \<open>v\<close>: for \<open>v = 0\<close> the statement \<^verbatim>\<open>push 0\<close> is emitted, whatever was set before; for
  another \<open>v\<close> that an earlier \<^verbatim>\<open>set\<close> named, the statement pushes the identifier the
  table holds for \<open>v\<close>; for a \<open>v\<close> no \<^verbatim>\<open>set\<close> named, the command fails with
  \<open>KeyError\<close>, and so does the whole run.
\<close>

theorem push_lookup:
  assumes "run_lines e init_state pre = Inr st" and "parseLine line = Inr (''push'', [v])"
  shows "(v = ''0'' \<longrightarrow> process_line e st line = Inr (emit ''push 0'' st))
       \<and> (v \<noteq> ''0'' \<and> (\<exists>l\<in>set pre. set_name l = Some v) \<longrightarrow>
            (\<exists>varID. map_of (varMap st) v = Some varID
               \<and> process_line e st line = Inr (emit (''push $'' @ varID) st)))
       \<and> (v \<noteq> ''0'' \<and> \<not> (\<exists>l\<in>set pre. set_name l = Some v) \<longrightarrow>
            process_line e st line = Inl (KeyError v)
            \<and> run_lines e init_state (pre @ line # rest) = Inl (KeyError v))"
proof -
  have d: "dom (map_of (varMap st)) = {''0''} \<union> {v. \<exists>l\<in>set pre. set_name l = Some v}"
    using run_lines_dom [OF assms(1)] by (simp add: init_state_def)
  have pl: "process_line e st line
     = (case map_of (varMap st) v of
          None \<Rightarrow> Inl (KeyError v)
        | Some varID \<Rightarrow> Inr (emit (if v \<noteq> ''0'' then ''push $'' @ varID else ''push 0'') st))"
    using assms(2) by (simp add: process_line_def process_cmd_push)
  show ?thesis
  proof (intro conjI impI)
    assume "v = ''0''"
    with d have "v \<in> dom (map_of (varMap st))" by simp
    then show "process_line e st line = Inr (emit ''push 0'' st)"
      using pl \<open>v = ''0''\<close> by auto
  next
    assume a: "v \<noteq> ''0'' \<and> (\<exists>l\<in>set pre. set_name l = Some v)"
    with d have "v \<in> dom (map_of (varMap st))" by blast
    then obtain varID where "map_of (varMap st) v = Some varID" by blast
    then show "\<exists>varID. map_of (varMap st) v = Some varID
               \<and> process_line e st line = Inr (emit (''push $'' @ varID) st)"
      using pl a by simp
  next
    assume a: "v \<noteq> ''0'' \<and> \<not> (\<exists>l\<in>set pre. set_name l = Some v)"
    with d have "v \<notin> dom (map_of (varMap st))" by blast
    then have n: "map_of (varMap st) v = None" by blast
    then show "process_line e st line = Inl (KeyError v)" using pl by simp
    then show "run_lines e init_state (pre @ line # rest) = Inl (KeyError v)"
      using run_lines_abort [OF assms(1)] by blast
  qed
qed

text \<open>On the sample host: after \<^verbatim>\<open>-set a\<close>, on the initial state, and after
  \<^verbatim>\<open>-set 0\<close>.\<close>

theorem push_lookup_witness:
  "process_line sample_env
      \<lparr>cmdStack = [''set N_12 [stack 0]''], execNodes = [],
       varMap = [(''0'', ''0''), (''a'', ''N_12'')], rand_calls = 1, printed = []\<rparr> ''push a''
     = Inr \<lparr>cmdStack = [''set N_12 [stack 0]'', ''push $N_12''], execNodes = [],
            varMap = [(''0'', ''0''), (''a'', ''N_12'')], rand_calls = 1, printed = []\<rparr>
   \<and> process_line sample_env init_state ''push 0'' = Inr (emit ''push 0'' init_state)
   \<and> process_line sample_env
        \<lparr>cmdStack = [''set N_12 [stack 0]''], execNodes = [],
         varMap = [(''0'', ''N_12'')], rand_calls = 1, printed = []\<rparr> ''push 0''
       = Inr \<lparr>cmdStack = [''set N_12 [stack 0]'', ''push 0''], execNodes = [],
              varMap = [(''0'', ''N_12'')], rand_calls = 1, printed = []\<rparr>
   \<and> process_line sample_env init_state ''push x'' = Inl (KeyError ''x'')"
proof -
  let ?st = "\<lparr>cmdStack = [''set N_12 [stack 0]''], execNodes = [],
       varMap = [(''0'', ''0''), (''a'', ''N_12'')], rand_calls = 1, printed = []\<rparr>"
  have r: "run_lines sample_env init_state [''set a''] = Inr ?st"
    by code_simp
  have p: "parseLine ''push a'' = Inr (''push'', [''a''])" by code_simp
  have n: "set_name ''set a'' = Some ''a''" by code_simp
  have "\<exists>varID. map_of (varMap ?st) ''a'' = Some varID
          \<and> process_line sample_env ?st ''push a'' = Inr (emit (''push $'' @ varID) ?st)"
    using push_lookup [OF r p] n by simp
  then have a: "process_line sample_env ?st ''push a'' = Inr (emit (''push $'' @ ''N_12'') ?st)"
    by simp
  have r0: "run_lines sample_env init_state [] = Inr init_state" by simp
  have p0: "parseLine ''push 0'' = Inr (''push'', [''0''])" by code_simp
  have b: "process_line sample_env init_state ''push 0'' = Inr (emit ''push 0'' init_state)"
    using push_lookup [OF r0 p0] by simp
  let ?sz = "\<lparr>cmdStack = [''set N_12 [stack 0]''], execNodes = [],
         varMap = [(''0'', ''N_12'')], rand_calls = 1, printed = []\<rparr>"
  have rz: "run_lines sample_env init_state [''set 0''] = Inr ?sz"
    by code_simp
  have z: "process_line sample_env ?sz ''push 0'' = Inr (emit ''push 0'' ?sz)"
    using push_lookup [OF rz p0] by simp
  have px: "parseLine ''push x'' = Inr (''push'', [''x''])" by code_simp
  have c: "process_line sample_env init_state ''push x'' = Inl (KeyError ''x'')"
    using push_lookup [OF r0 px] by simp
  from a b z c show ?thesis by (simp add: emit_def)
qed

lemma run_lines_latest:
  assumes "run_lines e st0 (a @ l # b) = Inr st" and "set_name l = Some v"
    and "\<forall>x\<in>set b. set_name x \<noteq> Some v"
  shows "\<exists>s1. run_lines e st0 a = Inr s1
           \<and> map_of (varMap st) v = Some (generateNodeID e (rand_calls s1) v)"
proof -
  from assms(1) obtain s1 s2 where s: "run_lines e st0 a = Inr s1" "process_line e s1 l = Inr s2"
    "run_lines e s2 b = Inr st"
    by (auto simp: run_lines_append split: sum.splits)
  have "map_of (varMap s2) v = Some (generateNodeID e (rand_calls s1) v)"
    using process_line_varMap [OF s(2)] assms(2) by (simp add: update_conv')
  moreover have "map_of (varMap st) v = map_of (varMap s2) v"
    using run_lines_untouched [OF s(3)] assms(3) by blast
  ultimately show ?thesis using s(1) by simp
qed

text \<open>
  Claim C9, as the code has it. Along a run no name leaves the table, and a name that no
  \<^verbatim>\<open>set\<close> of the run names keeps its identifier. A \<^verbatim>\<open>set\<close> of a name stores a newly
  generated identifier for it, also when the name is in the table already (\<open>0\<close>
  included): after the run the table holds, for a name, the identifier generated at the
  last \<^verbatim>\<open>set\<close> of that name. A later \<^verbatim>\<open>push\<close> of a name other than \<open>0\<close> emits the push
  statement with that identifier. A \<^verbatim>\<open>push\<close> of \<open>0\<close> does not recall the table: it emits
  \<^verbatim>\<open>push 0\<close> whatever identifier the table holds for \<open>0\<close>.
\<close>

theorem varMap_latest_set:
  assumes "run_lines e st0 (a @ l # b) = Inr st"
  shows "dom (map_of (varMap st0)) \<subseteq> dom (map_of (varMap st))
       \<and> (\<forall>v. (\<forall>x\<in>set (a @ l # b). set_name x \<noteq> Some v) \<longrightarrow>
             map_of (varMap st) v = map_of (varMap st0) v)
       \<and> (\<forall>v. set_name l = Some v \<and> (\<forall>x\<in>set b. set_name x \<noteq> Some v) \<longrightarrow>
            (\<exists>s1. run_lines e st0 a = Inr s1
               \<and> map_of (varMap st) v = Some (generateNodeID e (rand_calls s1) v)))
       \<and> (\<forall>v line. set_name l = Some v \<and> (\<forall>x\<in>set b. set_name x \<noteq> Some v) \<and> v \<noteq> ''0''
               \<and> parseLine line = Inr (''push'', [v]) \<longrightarrow>
            (\<exists>s1. run_lines e st0 a = Inr s1
               \<and> process_line e st line
                   = Inr (emit (''push $'' @ generateNodeID e (rand_calls s1) v) st)))
       \<and> (\<forall>line. set_name l = Some ''0'' \<and> (\<forall>x\<in>set b. set_name x \<noteq> Some ''0'')
               \<and> parseLine line = Inr (''push'', [''0'']) \<longrightarrow>
            (\<exists>s1. run_lines e st0 a = Inr s1
               \<and> map_of (varMap st) ''0'' = Some (generateNodeID e (rand_calls s1) ''0'')
               \<and> process_line e st line = Inr (emit ''push 0'' st)))
       \<and> (\<forall>line. ''0'' \<in> dom (map_of (varMap st0)) \<and> parseLine line = Inr (''push'', [''0'']) \<longrightarrow>
            process_line e st line = Inr (emit ''push 0'' st))"
proof (intro conjI allI impI)
  show "dom (map_of (varMap st0)) \<subseteq> dom (map_of (varMap st))"
    using run_lines_dom [OF assms] by blast
next
  fix v
  assume "\<forall>x\<in>set (a @ l # b). set_name x \<noteq> Some v"
  then show "map_of (varMap st) v = map_of (varMap st0) v"
    using run_lines_untouched [OF assms] by blast
next
  fix v
  assume "set_name l = Some v \<and> (\<forall>x\<in>set b. set_name x \<noteq> Some v)"
  then show "\<exists>s1. run_lines e st0 a = Inr s1
               \<and> map_of (varMap st) v = Some (generateNodeID e (rand_calls s1) v)"
    using run_lines_latest [OF assms] by blast
next
  fix v line
  assume h: "set_name l = Some v \<and> (\<forall>x\<in>set b. set_name x \<noteq> Some v) \<and> v \<noteq> ''0''
               \<and> parseLine line = Inr (''push'', [v])"
  then obtain s1 where s1: "run_lines e st0 a = Inr s1"
    "map_of (varMap st) v = Some (generateNodeID e (rand_calls s1) v)"
    using run_lines_latest [OF assms] by blast
  have "process_line e st line
          = Inr (emit (''push $'' @ generateNodeID e (rand_calls s1) v) st)"
    using h s1(2) by (simp add: process_line_def process_cmd_push)
  with s1(1) show "\<exists>s1. run_lines e st0 a = Inr s1
               \<and> process_line e st line
                   = Inr (emit (''push $'' @ generateNodeID e (rand_calls s1) v) st)"
    by blast
next
  fix line
  assume h: "set_name l = Some ''0'' \<and> (\<forall>x\<in>set b. set_name x \<noteq> Some ''0'')
               \<and> parseLine line = Inr (''push'', [''0''])"
  then obtain s1 where s1: "run_lines e st0 a = Inr s1"
    "map_of (varMap st) ''0'' = Some (generateNodeID e (rand_calls s1) ''0'')"
    using run_lines_latest [OF assms] by blast
  have "process_line e st line = Inr (emit ''push 0'' st)"
    using h s1(2) by (simp add: process_line_def process_cmd_push)
  with s1 show "\<exists>s1. run_lines e st0 a = Inr s1
               \<and> map_of (varMap st) ''0'' = Some (generateNodeID e (rand_calls s1) ''0'')
               \<and> process_line e st line = Inr (emit ''push 0'' st)"
    by blast
next
  fix line
  assume h: "''0'' \<in> dom (map_of (varMap st0)) \<and> parseLine line = Inr (''push'', [''0''])"
  then have "''0'' \<in> dom (map_of (varMap st))"
    using run_lines_dom [OF assms] by blast
  then obtain x where "map_of (varMap st) ''0'' = Some x" by blast
  then show "process_line e st line = Inr (emit ''push 0'' st)"
    using h by (simp add: process_line_def process_cmd_push)
qed

text \<open>On the sample host. After two \<^verbatim>\<open>set a\<close> in a row a \<^verbatim>\<open>push a\<close> pushes the identifier
  of the second. After \<^verbatim>\<open>set 0\<close> the table holds a new identifier for \<open>0\<close>, and a
  \<^verbatim>\<open>push 0\<close> still emits \<^verbatim>\<open>push 0\<close>.\<close>

theorem varMap_latest_set_witness:
  "process_line sample_env
      \<lparr>cmdStack = [''set N_12 [stack 0]'', ''set N_5 [stack 0]''], execNodes = [],
       varMap = [(''0'', ''0''), (''a'', ''N_5'')], rand_calls = 2, printed = []\<rparr> ''push a''
     = Inr \<lparr>cmdStack = [''set N_12 [stack 0]'', ''set N_5 [stack 0]'', ''push $N_5''],
            execNodes = [], varMap = [(''0'', ''0''), (''a'', ''N_5'')], rand_calls = 2,
            printed = []\<rparr>
   \<and> run_lines sample_env init_state [''set 0'']
     = Inr \<lparr>cmdStack = [''set N_12 [stack 0]''], execNodes = [],
            varMap = [(''0'', ''N_12'')], rand_calls = 1, printed = []\<rparr>
   \<and> process_line sample_env
        \<lparr>cmdStack = [''set N_12 [stack 0]''], execNodes = [],
         varMap = [(''0'', ''N_12'')], rand_calls = 1, printed = []\<rparr> ''push 0''
     = Inr \<lparr>cmdStack = [''set N_12 [stack 0]'', ''push 0''], execNodes = [],
            varMap = [(''0'', ''N_12'')], rand_calls = 1, printed = []\<rparr>"
proof -
  let ?st = "\<lparr>cmdStack = [''set N_12 [stack 0]'', ''set N_5 [stack 0]''], execNodes = [],
       varMap = [(''0'', ''0''), (''a'', ''N_5'')], rand_calls = 2, printed = []\<rparr>"
  let ?s1 = "\<lparr>cmdStack = [''set N_12 [stack 0]''], execNodes = [],
       varMap = [(''0'', ''0''), (''a'', ''N_12'')], rand_calls = 1, printed = []\<rparr>"
  let ?sz = "\<lparr>cmdStack = [''set N_12 [stack 0]''], execNodes = [],
       varMap = [(''0'', ''N_12'')], rand_calls = 1, printed = []\<rparr>"
  have r: "run_lines sample_env init_state ([''set a''] @ ''set a'' # []) = Inr ?st"
    by code_simp
  have r1: "run_lines sample_env init_state [''set a''] = Inr ?s1"
    by code_simp
  have n: "set_name ''set a'' = Some ''a''" by code_simp
  have pa: "parseLine ''push a'' = Inr (''push'', [''a''])" by code_simp
  have g: "generateNodeID sample_env (rand_calls ?s1) ''a'' = ''N_5''" by code_simp
  have "\<exists>s1. run_lines sample_env init_state [''set a''] = Inr s1
          \<and> process_line sample_env ?st ''push a''
              = Inr (emit (''push $'' @ generateNodeID sample_env (rand_calls s1) ''a'') ?st)"
    using varMap_latest_set [OF r] n pa by simp
  then have "process_line sample_env ?st ''push a''
               = Inr (emit (''push $'' @ generateNodeID sample_env (rand_calls ?s1) ''a'') ?st)"
    using r1 by auto
  then have one: "process_line sample_env ?st ''push a'' = Inr (emit ''push $N_5'' ?st)"
    unfolding g by simp
  have rz: "run_lines sample_env init_state ([] @ ''set 0'' # []) = Inr ?sz"
    by code_simp
  have nz: "set_name ''set 0'' = Some ''0''" by code_simp
  have pz: "parseLine ''push 0'' = Inr (''push'', [''0''])" by code_simp
  have em: "\<forall>x\<in>set ([]::string list). set_name x \<noteq> Some ''0''" by simp
  have "\<exists>s1. run_lines sample_env init_state [] = Inr s1
          \<and> map_of (varMap ?sz) ''0'' = Some (generateNodeID sample_env (rand_calls s1) ''0'')
          \<and> process_line sample_env ?sz ''push 0'' = Inr (emit ''push 0'' ?sz)"
    using varMap_latest_set [OF rz] nz pz em by blast
  then have two: "process_line sample_env ?sz ''push 0'' = Inr (emit ''push 0'' ?sz)"
    by blast
  from one two rz show ?thesis by (simp add: emit_def)
qed

text \<open>Claim C9 as stated fails: the second \<^verbatim>\<open>push a\<close> recalls another identifier
  than the first \<^verbatim>\<open>set a\<close> recorded, and \<^verbatim>\<open>set 0\<close> replaces the entry the table starts
  with.\<close>

theorem varMap_counterexample:
  "parseCLI sample_env ''-set a -push a -set a -push a''
     = Inr ''set N_12 [stack 0];push $N_12;set N_5 [stack 0];push $N_5;''
   \<and> map_sum id varMap (run_lines sample_env init_state (cli_lines ''-set 0''))
     = Inr [(''0'', ''N_12'')]"
  by code_simp

section \<open>Node commands\<close>

lemma run_lines_nodes:
  assumes "list_all2 (\<lambda>l s. \<exists>cmd args node. parseLine l = Inr (cmd, args)
                  \<and> cmd \<notin> {''set'', ''push'', ''execute'', ''save''}
                  \<and> getNukeNode (allPlugins e) cmd = Inr node
                  \<and> s = node @ '' {'' @ join '' '' args @ ''}'') ls stmts"
  shows "run_lines e st ls = Inr (st\<lparr>cmdStack := cmdStack st @ stmts\<rparr>)"
  using assms
proof (induction ls stmts arbitrary: st rule: list_all2_induct)
  case Nil
  then show ?case by simp
next
  case (Cons l ls s ss)
  then obtain cmd args node where h: "parseLine l = Inr (cmd, args)"
    "cmd \<notin> {''set'', ''push'', ''execute'', ''save''}"
    "getNukeNode (allPlugins e) cmd = Inr node" "s = node @ '' {'' @ join '' '' args @ ''}''"
    by blast
  have "node_stmt node args = s"
    using h(4) by (cases args) (simp_all add: node_stmt_def)
  then have "process_line e st l = Inr (emit s st)"
    using h by (simp add: process_line_def process_cmd_node)
  then show ?case using Cons.IH [of "emit s st"] by (simp add: emit_def)
qed

text \<open>
  Claim C4. When every command of the input is a class name that is none of the four
  keywords and resolves, the program is the list of the create-node statements, one per
  command and in the order of the input, each made of the resolved class and the
  arguments joined by single spaces (nothing when there are none), every statement
  followed by a semicolon.
\<close>

theorem node_flags_only:
  assumes "list_all2 (\<lambda>l s. \<exists>cmd args node. parseLine l = Inr (cmd, args)
                  \<and> cmd \<notin> {''set'', ''push'', ''execute'', ''save''}
                  \<and> getNukeNode (allPlugins e) cmd = Inr node
                  \<and> s = node @ '' {'' @ join '' '' args @ ''}'') (cli_lines rawInput) stmts"
  shows "parseCLI e rawInput = Inr (tcl_string stmts)"
  using run_lines_nodes [OF assms, of init_state]
  by (simp add: parseCLI_def init_state_def)

text \<open>Three node commands on the sample host.\<close>

theorem node_flags_only_witness:
  "parseCLI sample_env ''-grade blackpoint .015 -merge inputs 2 -blur''
     = Inr ''Grade {blackpoint .015};Merge2 {inputs 2};Blur2 {};''"
proof -
  have l: "cli_lines ''-grade blackpoint .015 -merge inputs 2 -blur''
             = [''grade blackpoint .015'', ''merge inputs 2'', ''blur'']"
    by code_simp
  have p: "parseLine ''grade blackpoint .015'' = Inr (''grade'', [''blackpoint'', ''.015''])"
    "parseLine ''merge inputs 2'' = Inr (''merge'', [''inputs'', ''2''])"
    "parseLine ''blur'' = Inr (''blur'', [])"
    by code_simp+
  have g: "getNukeNode (allPlugins sample_env) ''grade'' = Inr ''Grade''"
    "getNukeNode (allPlugins sample_env) ''merge'' = Inr ''Merge2''"
    "getNukeNode (allPlugins sample_env) ''blur'' = Inr ''Blur2''"
    by code_simp+
  have "list_all2 (\<lambda>l s. \<exists>cmd args node. parseLine l = Inr (cmd, args)
                  \<and> cmd \<notin> {''set'', ''push'', ''execute'', ''save''}
                  \<and> getNukeNode (allPlugins sample_env) cmd = Inr node
                  \<and> s = node @ '' {'' @ join '' '' args @ ''}'')
          (cli_lines ''-grade blackpoint .015 -merge inputs 2 -blur'')
          [''Grade {blackpoint .015}'', ''Merge2 {inputs 2}'', ''Blur2 {}'']"
    unfolding l by (simp add: p g)
  from node_flags_only [OF this] show ?thesis
    by (simp add: tcl_string_def)
qed

section \<open>Deferred execution\<close>

lemma do_save_mono:
  "do_save e st args = Inr st' \<Longrightarrow>
     prefix (cmdStack st) (cmdStack st') \<and> execNodes st' = execNodes st"
  by (auto simp: do_save_def split: list.splits if_splits)

lemma process_cmd_cases [case_names set push execute save node]:
  assumes "\<And>v. cmd = ''set'' \<Longrightarrow> args = [v] \<Longrightarrow> P"
    and "\<And>v. cmd = ''push'' \<Longrightarrow> args = [v] \<Longrightarrow> P"
    and "cmd = ''execute'' \<Longrightarrow> P"
    and "cmd = ''save'' \<Longrightarrow> P"
    and "\<not> (cmd = ''set'' \<and> length args = 1) \<Longrightarrow> \<not> (cmd = ''push'' \<and> length args = 1)
         \<Longrightarrow> cmd \<noteq> ''execute'' \<Longrightarrow> cmd \<noteq> ''save'' \<Longrightarrow> P"
  shows P
proof -
  have one: "length args = 1 \<Longrightarrow> \<exists>v. args = [v]"
    by (cases args) auto
  show ?thesis using assms one by blast
qed

lemma process_cmd_effect:
  assumes "process_cmd e st cmd args = Inr st'"
  shows "prefix (cmdStack st) (cmdStack st')
       \<and> execNodes st'
           = execNodes st @ (if cmd = ''execute''
                             then [(generateNodeID e (rand_calls st) ''execute'',
                                    if args \<noteq> [] then Some (hd args) else None)]
                             else [])"
proof (cases rule: process_cmd_cases [of cmd args])
  case (set v)
  then show ?thesis using assms by (auto simp: process_cmd_set)
next
  case (push v)
  then show ?thesis using assms by (auto simp: process_cmd_push split: option.splits)
next
  case execute
  then show ?thesis using assms by (auto simp: process_cmd_execute)
next
  case save
  then show ?thesis using assms do_save_mono [of e st args st'] by (simp add: process_cmd_save)
next
  case node
  then show ?thesis using assms by (auto simp: process_cmd_node split: sum.splits)
qed

lemma process_line_execNodes:
  assumes "process_line e st l = Inr st'"
  shows "execNodes st'
           = execNodes st @ (if is_execute l
                             then [(generateNodeID e (rand_calls st) ''execute'', execute_range l)]
                             else [])"
proof -
  from assms obtain cmd args where p: "parseLine l = Inr (cmd, args)"
    "process_cmd e st cmd args = Inr st'"
    by (auto simp: process_line_def split: sum.splits)
  show ?thesis
    using process_cmd_effect [OF p(2)] p(1) by (simp add: is_execute_def execute_range_def)
qed

lemma process_line_mono:
  assumes "process_line e st l = Inr st'"
  shows "prefix (cmdStack st) (cmdStack st') \<and> prefix (execNodes st) (execNodes st')"
proof -
  from assms obtain cmd args where p: "parseLine l = Inr (cmd, args)"
    "process_cmd e st cmd args = Inr st'"
    by (auto simp: process_line_def split: sum.splits)
  show ?thesis
    using process_cmd_effect [OF p(2)] by simp
qed

lemma run_lines_mono:
  assumes "run_lines e st ls = Inr st'"
  shows "prefix (cmdStack st) (cmdStack st') \<and> prefix (execNodes st) (execNodes st')"
  using assms
proof (induction ls arbitrary: st)
  case Nil
  then show ?case by simp
next
  case (Cons l ls)
  then obtain s1 where s1: "process_line e st l = Inr s1" "run_lines e s1 ls = Inr st'"
    by (auto split: sum.splits)
  have a: "prefix (cmdStack st) (cmdStack s1)" "prefix (execNodes st) (execNodes s1)"
    using process_line_mono [OF s1(1)] by simp_all
  have b: "prefix (cmdStack s1) (cmdStack st')" "prefix (execNodes s1) (execNodes st')"
    using Cons.IH [OF s1(2)] by simp_all
  show ?case
    using prefix_order.trans [OF a(1) b(1)] prefix_order.trans [OF a(2) b(2)] by simp
qed

lemma run_lines_execNodes:
  assumes "run_lines e st ls = Inr st'"
  shows "map snd (execNodes st') = map snd (execNodes st) @ map execute_range (filter is_execute ls)"
  using assms
proof (induction ls arbitrary: st)
  case Nil
  then show ?case by simp
next
  case (Cons l ls)
  then obtain s1 where s1: "process_line e st l = Inr s1" "run_lines e s1 ls = Inr st'"
    by (auto split: sum.splits)
  have ih: "map snd (execNodes st')
              = map snd (execNodes s1) @ map execute_range (filter is_execute ls)"
    by (rule Cons.IH [OF s1(2)])
  show ?case
  proof (cases "is_execute l")
    case True
    then have "execNodes s1
                 = execNodes st @ [(generateNodeID e (rand_calls st) ''execute'', execute_range l)]"
      using process_line_execNodes [OF s1(1)] by simp
    then show ?thesis unfolding ih using True by simp
  next
    case False
    then have "execNodes s1 = execNodes st"
      using process_line_execNodes [OF s1(1)] by simp
    then show ?thesis unfolding ih using False by simp
  qed
qed

text \<open>
  Claim C1. When the loop over the commands ends without error: the program is the
  statements of the loop followed by the execute statements, one per registered request
  and in their order; the requests are those of the \<^verbatim>\<open>execute\<close> commands, in the order
  of the input, each with the first argument as its range when there is one; an execute
  statement holds the range as given, or else reads the \<open>first\<close> and \<open>last\<close> knobs of the
  captured node; and at every \<^verbatim>\<open>execute\<close> command the loop appended, right there, the
  statement that captures the stack top under the identifier of the request.
\<close>

theorem deferred_execute:
  assumes "run_lines e init_state (cli_lines rawInput) = Inr st"
  shows "parseCLI e rawInput = Inr (tcl_string (cmdStack st @ map exec_stmt (execNodes st)))
       \<and> map snd (execNodes st) = map execute_range (filter is_execute (cli_lines rawInput))
       \<and> map exec_stmt (execNodes st)
           = map (\<lambda>(node, r). case r of
                     Some rng \<Rightarrow> ''execute $'' @ node @ '' '' @ rng
                   | None \<Rightarrow> ''execute $'' @ node @ '' [value $'' @ node @ ''.first]-[value $''
                              @ node @ ''.last]'') (execNodes st)
       \<and> (\<forall>i. i < length (cli_lines rawInput) \<and> is_execute (cli_lines rawInput ! i) \<longrightarrow>
            (\<exists>s1 s2 node. run_lines e init_state (take i (cli_lines rawInput)) = Inr s1
               \<and> process_line e s1 (cli_lines rawInput ! i) = Inr s2
               \<and> node = generateNodeID e (rand_calls s1) ''execute''
               \<and> cmdStack s2 = cmdStack s1 @ [''set '' @ node @ '' [stack 0]'']
               \<and> execNodes s2 = execNodes s1 @ [(node, execute_range (cli_lines rawInput ! i))]
               \<and> prefix (cmdStack s2) (cmdStack st)
               \<and> prefix (execNodes s2) (execNodes st)))"
proof (intro conjI allI impI)
  show "parseCLI e rawInput = Inr (tcl_string (cmdStack st @ map exec_stmt (execNodes st)))"
    using assms by (simp add: parseCLI_def append_execs_eq)
next
  show "map snd (execNodes st) = map execute_range (filter is_execute (cli_lines rawInput))"
    using run_lines_execNodes [OF assms] by (simp add: init_state_def)
next
  show "map exec_stmt (execNodes st)
           = map (\<lambda>(node, r). case r of
                     Some rng \<Rightarrow> ''execute $'' @ node @ '' '' @ rng
                   | None \<Rightarrow> ''execute $'' @ node @ '' [value $'' @ node @ ''.first]-[value $''
                              @ node @ ''.last]'') (execNodes st)"
    by (rule map_cong) (auto simp: exec_stmt_def split: option.splits)
next
  fix i
  let ?ls = "cli_lines rawInput"
  assume h: "i < length ?ls \<and> is_execute (?ls ! i)"
  then have split: "?ls = take i ?ls @ (?ls ! i) # drop (Suc i) ?ls"
    by (simp add: id_take_nth_drop)
  from assms obtain s1 s2 where s: "run_lines e init_state (take i ?ls) = Inr s1"
    "process_line e s1 (?ls ! i) = Inr s2" "run_lines e s2 (drop (Suc i) ?ls) = Inr st"
    using run_lines_append [of e init_state "take i ?ls" "(?ls ! i) # drop (Suc i) ?ls"] split
    by (auto split: sum.splits)
  obtain args where pa: "parseLine (?ls ! i) = Inr (''execute'', args)"
    using h by (auto simp: is_execute_def split: sum.splits)
  have s2: "s2 = emit (capture_stmt (generateNodeID e (rand_calls s1) ''execute''))
             (s1\<lparr>execNodes := execNodes s1
                     @ [(generateNodeID e (rand_calls s1) ''execute'',
                         if args = [] then None else Some (hd args))],
                 rand_calls := Suc (rand_calls s1)\<rparr>)"
    using s(2) pa by (simp add: process_line_def process_cmd_execute)
  have er: "execute_range (?ls ! i) = (if args = [] then None else Some (hd args))"
    using pa by (simp add: execute_range_def)
  have c1: "cmdStack s2 = cmdStack s1 @ [''set '' @ generateNodeID e (rand_calls s1) ''execute'' @ '' [stack 0]'']"
    unfolding s2 by (simp add: capture_stmt_def)
  have c2: "execNodes s2 = execNodes s1 @ [(generateNodeID e (rand_calls s1) ''execute'', execute_range (?ls ! i))]"
    unfolding s2 er by simp
  from s(1,2) c1 c2 run_lines_mono [OF s(3)]
  show "\<exists>s1 s2 node. run_lines e init_state (take i ?ls) = Inr s1
               \<and> process_line e s1 (?ls ! i) = Inr s2
               \<and> node = generateNodeID e (rand_calls s1) ''execute''
               \<and> cmdStack s2 = cmdStack s1 @ [''set '' @ node @ '' [stack 0]'']
               \<and> execNodes s2 = execNodes s1 @ [(node, execute_range (?ls ! i))]
               \<and> prefix (cmdStack s2) (cmdStack st)
               \<and> prefix (execNodes s2) (execNodes st)"
    by blast
qed

text \<open>Two \<^verbatim>\<open>execute\<close> commands, one with a range and one without.\<close>

theorem deferred_execute_witness:
  "parseCLI sample_env ''-write out.exr -execute 1-10 -blur -execute''
     = Inr ''Write {out.exr};set N30 [stack 0];Blur2 {};set N37 [stack 0];execute $N30 1-10;execute $N37 [value $N37.first]-[value $N37.last];''"
proof -
  let ?st = "\<lparr>cmdStack = [''Write {out.exr}'', ''set N30 [stack 0]'', ''Blur2 {}'',
                 ''set N37 [stack 0]''],
        execNodes = [(''N30'', Some ''1-10''), (''N37'', None)],
        varMap = [(''0'', ''0'')], rand_calls = 2, printed = []\<rparr>"
  have r: "run_lines sample_env init_state
             (cli_lines ''-write out.exr -execute 1-10 -blur -execute'') = Inr ?st"
    by code_simp
  have "parseCLI sample_env ''-write out.exr -execute 1-10 -blur -execute''
          = Inr (tcl_string (cmdStack ?st @ map exec_stmt (execNodes ?st)))"
    using deferred_execute [OF r] by blast
  then show ?thesis by (simp add: tcl_string_def exec_stmt_def)
qed

end
